theory Spec2Isabelle
  imports Main "HOL-Library.Word" "HOL-Library.Multiset" "HOL-Library.Signed_Division"
begin

unbundle bit_operations_syntax

section \<open>Machine types and memory\<close>

text \<open>
  The program is written for GCC on x86-64 Linux (LP64): the inline assembly uses
  \<open>popcnt\<close> and \<open>loop\<close> on 64-bit registers.  So \<open>unsigned char\<close> is 8 bits,
  \<open>int\<close> is 32 bits, and \<open>long\<close>, \<open>unsigned long\<close>, \<open>unsigned long long\<close> and
  \<open>size_t\<close> are all 64 bits; \<open>chunk_size = sizeof(chunk_t) = 8\<close> and
  \<open>double_chunk_size = sizeof(double_chunk_t) = 8\<close>.  Arithmetic on these types is
  two's-complement arithmetic modulo \<open>2 ^ 64\<close> (or \<open>2 ^ 32\<close>).
\<close>

type_synonym uchar = "8 word"
type_synonym c_int = "32 word"
type_synonym long = "64 word"
type_synonym size_t = "64 word"
type_synonym chunk_t = "64 word"
type_synonym double_chunk_t = "64 word"

text \<open>
  Memory maps an address to the byte stored there; an address that is not mapped cannot
  be read.  A pointer is an address.  Every function that reads memory returns \<open>None\<close>
  as soon as it reads an address that is not mapped.
\<close>

type_synonym memory = "nat \<Rightarrow> uchar option"

definition chunk_size :: nat where
  "chunk_size = 8"

definition double_chunk_size :: nat where
  "double_chunk_size = 8"

text \<open>The bytes \<open>bs\<close> stored from address \<open>base\<close> on, and nothing else.\<close>

definition mem_of_bytes :: "nat \<Rightarrow> uchar list \<Rightarrow> memory" where
  "mem_of_bytes base bs =
     (\<lambda>a. if base \<le> a \<and> a < base + length bs then Some (bs ! (a - base)) else None)"

section \<open>Population count\<close>

text \<open>The number of set bits of a word: the positions below the width whose bit is set.\<close>

definition pop_count :: "'a::len word \<Rightarrow> nat" where
  "pop_count w = length (filter (bit w) [0..<LENGTH('a)])"

section \<open>count_bits_naive\<close>

text \<open>
  The inner loop \<open>for (bit = 0; bit < 8; bit++) if (buffer[byte] & (1 << bit)) bitcount++\<close>:
  the byte is promoted to \<open>int\<close> and tested against \<open>1 << bit\<close>.
\<close>

definition count_bits_naive_byte :: "uchar \<Rightarrow> long \<Rightarrow> long" where
  "count_bits_naive_byte b bitcount =
     fold (\<lambda>bit bc. if (ucast b :: c_int) AND push_bit bit 1 \<noteq> 0 then bc + 1 else bc)
       [0..<8] bitcount"

text \<open>The outer loop over the byte offsets, reading \<open>buffer[byte]\<close>.\<close>

fun count_bits_naive_loop :: "memory \<Rightarrow> nat \<Rightarrow> nat list \<Rightarrow> long \<Rightarrow> long option" where
  "count_bits_naive_loop m buffer [] bitcount = Some bitcount"
| "count_bits_naive_loop m buffer (byte # bytes) bitcount =
     (case m (buffer + byte) of
        None \<Rightarrow> None
      | Some b \<Rightarrow> count_bits_naive_loop m buffer bytes (count_bits_naive_byte b bitcount))"

definition count_bits_naive :: "memory \<Rightarrow> nat \<Rightarrow> size_t \<Rightarrow> long option" where
  "count_bits_naive m buffer bufsize =
     count_bits_naive_loop m buffer [0..<unat bufsize] 0"

section \<open>Chunks\<close>

text \<open>
  \<open>*reinterpret_cast<chunk_t *>(p)\<close> reads the eight bytes at \<open>p\<close>, the least
  significant byte first (x86-64 is little-endian).
\<close>

definition chunk_of_bytes :: "uchar list \<Rightarrow> chunk_t" where
  "chunk_of_bytes bs = foldr (\<lambda>b w. ucast b + 256 * w) bs 0"

definition read_chunk :: "memory \<Rightarrow> nat \<Rightarrow> chunk_t option" where
  "read_chunk m p =
     (case those (map (\<lambda>k. m (p + k)) [0..<chunk_size]) of
        None \<Rightarrow> None
      | Some bs \<Rightarrow> Some (chunk_of_bytes bs))"

text \<open>
  \<open>reinterpret_cast<const uchar *>(&chunk)\<close>: the bytes of a chunk held in a local
  variable, in memory order.
\<close>

definition bytes_of_chunk :: "chunk_t \<Rightarrow> uchar list" where
  "bytes_of_chunk chunk = map (\<lambda>k. ucast (drop_bit (8 * k) chunk)) [0..<chunk_size]"

type_synonym kernel_func = "chunk_t \<Rightarrow> long option"

section \<open>The OpenMP runtime\<close>

text \<open>
  The OpenMP runtime is a parameter of the program.  A parallel region runs a team of
  \<open>omp_num_threads\<close> threads (\<open>omp_get_num_threads()\<close>).  For a worksharing loop of
  \<open>n\<close> iterations, \<open>omp_schedule n\<close> lists the threads of the team in the order in which
  the reduction combines their private results: each entry is the thread's number
  (\<open>omp_get_thread_num()\<close>) and the iterations that thread executes, in its order.
\<close>

record omp_env =
  omp_num_threads :: nat
  omp_schedule :: "nat \<Rightarrow> (nat \<times> nat list) list"

text \<open>
  What OpenMP guarantees: the team is not empty and its size fits the \<open>int\<close> that
  \<open>omp_get_num_threads()\<close> returns, its threads are numbered
  \<open>0, \<dots>, omp_num_threads - 1\<close>, and every iteration of a worksharing loop is executed
  by exactly one thread, exactly once.
\<close>

definition omp_env_ok :: "omp_env \<Rightarrow> bool" where
  "omp_env_ok omp \<longleftrightarrow>
     0 < omp_num_threads omp \<and> omp_num_threads omp < 2 ^ 31 \<and>
     (\<forall>n. mset (map fst (omp_schedule omp n)) = mset [0..<omp_num_threads omp] \<and>
          mset (concat (map snd (omp_schedule omp n))) = mset [0..<n])"

text \<open>
  The static schedule of a team of \<open>t\<close> threads: thread \<open>k\<close> runs one contiguous block of
  iterations, the blocks differ in size by at most one.
\<close>

definition omp_static_bound :: "nat \<Rightarrow> nat \<Rightarrow> nat \<Rightarrow> nat" where
  "omp_static_bound t n k = k * (n div t) + min k (n mod t)"

definition omp_static :: "nat \<Rightarrow> omp_env" where
  "omp_static t =
     \<lparr>omp_num_threads = t,
      omp_schedule = (\<lambda>n. map (\<lambda>k. (k, [omp_static_bound t n k..<omp_static_bound t n (Suc k)]))
                             [0..<t])\<rparr>"

text \<open>
  \<open>#pragma omp parallel reduction (+:total)\<close>: every thread of the team runs the body
  with a private accumulator, and the private results are added to \<open>total\<close> (here \<open>tot\<close>).
\<close>

fun omp_parallel_reduction ::
  "(nat \<times> nat list \<Rightarrow> long option) \<Rightarrow> (nat \<times> nat list) list \<Rightarrow> long \<Rightarrow> long option" where
  "omp_parallel_reduction body [] tot = Some tot"
| "omp_parallel_reduction body (thread # team) tot =
     (case body thread of
        None \<Rightarrow> None
      | Some thread_total \<Rightarrow> omp_parallel_reduction body team (tot + thread_total))"

text \<open>\<open>#pragma omp for\<close>: one thread runs the loop body on the iterations it was given.\<close>

fun omp_for :: "(nat \<Rightarrow> long \<Rightarrow> long option) \<Rightarrow> nat list \<Rightarrow> long \<Rightarrow> long option" where
  "omp_for body [] acc = Some acc"
| "omp_for body (i # iters) acc =
     (case body i acc of
        None \<Rightarrow> None
      | Some acc' \<Rightarrow> omp_for body iters acc')"

section \<open>The chunked harnesses\<close>

text \<open>
  The loop body of the harnesses:
  \<open>chunk = *reinterpret_cast<chunk_t *>(buffer + i * chunk_size); thread_total += func(chunk)\<close>.
\<close>

definition kernel_loop_body ::
  "kernel_func \<Rightarrow> memory \<Rightarrow> nat \<Rightarrow> nat \<Rightarrow> long \<Rightarrow> long option" where
  "kernel_loop_body func m buffer i thread_total =
     (case read_chunk m (buffer + i * chunk_size) of
        None \<Rightarrow> None
      | Some chunk \<Rightarrow>
          (case func chunk of
             None \<Rightarrow> None
           | Some c \<Rightarrow> Some (thread_total + c)))"

text \<open>The locals \<open>num_chunks\<close>, \<open>chunked_bufsize\<close> and \<open>leftover\<close> of the harnesses.\<close>

definition kernel_num_chunks :: "size_t \<Rightarrow> long" where
  "kernel_num_chunks bufsize = bufsize div of_nat chunk_size"

definition kernel_chunked_bufsize :: "size_t \<Rightarrow> size_t" where
  "kernel_chunked_bufsize bufsize = kernel_num_chunks bufsize * of_nat chunk_size"

definition kernel_leftover :: "size_t \<Rightarrow> c_int" where
  "kernel_leftover bufsize = ucast (bufsize - kernel_chunked_bufsize bufsize)"

text \<open>
  The tail of every harness:
  \<open>total += count_bits_naive(buffer + chunked_bufsize, leftover); return total\<close>.
\<close>

definition add_leftover ::
  "memory \<Rightarrow> nat \<Rightarrow> size_t \<Rightarrow> size_t \<Rightarrow> long option \<Rightarrow> long option" where
  "add_leftover m buffer chunked_bufsize leftover parallel_total =
     (case parallel_total of
        None \<Rightarrow> None
      | Some tot \<Rightarrow>
          (case count_bits_naive m (buffer + unat chunked_bufsize) leftover of
             None \<Rightarrow> None
           | Some tail \<Rightarrow> Some (tot + tail)))"

definition count_bits_kernel ::
  "kernel_func \<Rightarrow> omp_env \<Rightarrow> memory \<Rightarrow> nat \<Rightarrow> size_t \<Rightarrow> long option" where
  "count_bits_kernel func omp m buffer bufsize =
     add_leftover m buffer (kernel_chunked_bufsize bufsize) (scast (kernel_leftover bufsize))
       (omp_parallel_reduction
          (\<lambda>(thread_id, iters). omp_for (kernel_loop_body func m buffer) iters 0)
          (omp_schedule omp (nat (sint (kernel_num_chunks bufsize)))) 0)"

text \<open>
  \<open>count_bits_kernel_double\<close> is the same harness over \<open>double_chunk_t\<close>, which has the
  size of \<open>chunk_t\<close> on this platform.
\<close>

definition count_bits_kernel_double ::
  "kernel_func \<Rightarrow> omp_env \<Rightarrow> memory \<Rightarrow> nat \<Rightarrow> size_t \<Rightarrow> long option" where
  "count_bits_kernel_double func omp m buffer bufsize =
     (let num_chunks = bufsize div of_nat double_chunk_size :: long;
          chunked_bufsize = num_chunks * of_nat double_chunk_size :: size_t;
          leftover = ucast (bufsize - chunked_bufsize) :: c_int
      in add_leftover m buffer chunked_bufsize (scast leftover)
           (omp_parallel_reduction
              (\<lambda>(thread_id, iters).
                 omp_for
                   (\<lambda>i thread_total.
                      case read_chunk m (buffer + i * double_chunk_size) of
                        None \<Rightarrow> None
                      | Some chunk \<Rightarrow>
                          (case func chunk of
                             None \<Rightarrow> None
                           | Some c \<Rightarrow> Some (thread_total + c)))
                   iters 0)
              (omp_schedule omp (nat (sint num_chunks))) 0))"

text \<open>
  The hybrid harness.  A thread whose number is below
  \<open>num_threads / (numFunc1 + numFunc2)\<close> (division of \<open>int\<close>s, truncating) runs the
  first worksharing loop, with \<open>func\<close>; every other thread runs the second, with
  \<open>func2\<close>.  Dividing by zero is undefined.
\<close>

definition kernel2_thread ::
  "kernel_func \<Rightarrow> kernel_func \<Rightarrow> int \<Rightarrow> int \<Rightarrow> omp_env \<Rightarrow> memory \<Rightarrow> nat \<Rightarrow>
   nat \<times> nat list \<Rightarrow> long option" where
  "kernel2_thread func func2 numFunc1 numFunc2 omp m buffer =
     (\<lambda>(thread_id, iters).
        let num_threads = int (omp_num_threads omp)
        in if numFunc1 + numFunc2 = 0 then None
           else if int thread_id < num_threads sdiv (numFunc1 + numFunc2)
           then omp_for (kernel_loop_body func m buffer) iters 0
           else omp_for (kernel_loop_body func2 m buffer) iters 0)"

definition count_bits_kernel2 ::
  "kernel_func \<Rightarrow> kernel_func \<Rightarrow> int \<Rightarrow> int \<Rightarrow> omp_env \<Rightarrow> memory \<Rightarrow> nat \<Rightarrow> size_t \<Rightarrow>
   long option" where
  "count_bits_kernel2 func func2 numFunc1 numFunc2 omp m buffer bufsize =
     add_leftover m buffer (kernel_chunked_bufsize bufsize) (scast (kernel_leftover bufsize))
       (omp_parallel_reduction
          (kernel2_thread func func2 numFunc1 numFunc2 omp m buffer)
          (omp_schedule omp (nat (sint (kernel_num_chunks bufsize)))) 0)"

section \<open>The lookup table\<close>

text \<open>
  \<open>count_bits(number)\<close> at type \<open>int\<close>: \<open>count_bits_naive\<close> over the four bytes of the
  local variable that holds the number.
\<close>

definition bytes_of_int :: "c_int \<Rightarrow> uchar list" where
  "bytes_of_int number = map (\<lambda>k. ucast (drop_bit (8 * k) number)) [0..<4]"

definition count_bits_int :: "c_int \<Rightarrow> long option" where
  "count_bits_int number = count_bits_naive (mem_of_bytes 0 (bytes_of_int number)) 0 4"

text \<open>
  \<open>static int lookup_table[256]\<close> is a list of \<open>int\<close>s; static storage starts as zeros.
  An access outside the array is undefined: \<open>None\<close>.
\<close>

definition lookup_table_static :: "c_int list" where
  "lookup_table_static = replicate 256 0"

fun init_lookup_table_loop :: "nat list \<Rightarrow> c_int list \<Rightarrow> c_int list option" where
  "init_lookup_table_loop [] lookup_table = Some lookup_table"
| "init_lookup_table_loop (i # is) lookup_table =
     (case count_bits_int (of_nat i) of
        None \<Rightarrow> None
      | Some c \<Rightarrow>
          if i < length lookup_table
          then init_lookup_table_loop is (lookup_table[i := ucast c])
          else None)"

definition init_lookup_table :: "c_int list \<Rightarrow> c_int list option" where
  "init_lookup_table lookup_table = init_lookup_table_loop [0..<256] lookup_table"

section \<open>The kernels\<close>

fun table_kernel_loop :: "c_int list \<Rightarrow> uchar list \<Rightarrow> long \<Rightarrow> long option" where
  "table_kernel_loop lookup_table [] tot = Some tot"
| "table_kernel_loop lookup_table (b # bs) tot =
     (if unat b < length lookup_table
      then table_kernel_loop lookup_table bs (tot + scast (lookup_table ! unat b))
      else None)"

definition table_kernel :: "c_int list \<Rightarrow> kernel_func" where
  "table_kernel lookup_table chunk = table_kernel_loop lookup_table (bytes_of_chunk chunk) 0"

text \<open>
  \<open>while (chunk) { total++; chunk &= chunk - 1; }\<close> on a \<open>long\<close>; the subtraction is
  taken modulo \<open>2 ^ 64\<close>.  \<open>kernighan_step\<close> is the assignment \<open>chunk &= chunk - 1\<close>.
  Beside \<open>total\<close> the loop returns the number of times its body has run, which it counts
  in \<open>iterations\<close> (not a variable of the program).
\<close>

definition kernighan_step :: "long \<Rightarrow> long" where
  "kernighan_step chunk = chunk AND (chunk - 1)"

function kernighan_loop :: "long \<Rightarrow> long \<Rightarrow> nat \<Rightarrow> long \<times> nat" where
  "kernighan_loop chunk tot iterations =
     (if chunk \<noteq> 0
      then kernighan_loop (kernighan_step chunk) (tot + 1) (Suc iterations)
      else (tot, iterations))"
  by pat_completeness auto
termination
proof (relation "measure (\<lambda>(chunk, tot, iterations). unat chunk)")
  show "wf (measure (\<lambda>(chunk :: long, tot :: long, iterations :: nat). unat chunk))"
    by simp
next
  fix chunk tot :: long and iterations :: nat
  assume nz: "chunk \<noteq> 0"
  have "chunk AND (chunk - 1) \<le> chunk - 1"
    by (rule word_and_le1)
  then have "unat (chunk AND (chunk - 1)) \<le> unat (chunk - 1)"
    by (simp add: word_le_nat_alt)
  also have "\<dots> < unat chunk"
    using nz by (rule measure_unat)
  finally show "((kernighan_step chunk, tot + 1, Suc iterations), (chunk, tot, iterations))
      \<in> measure (\<lambda>(chunk, tot, iterations). unat chunk)"
    by (simp add: kernighan_step_def)
qed

definition kernighan_kernel :: "chunk_t \<Rightarrow> long" where
  "kernighan_kernel chunk = fst (kernighan_loop chunk 0 0)"

text \<open>
  The masks of the sideways addition.  The value is held in a \<open>long\<close>, so \<open>>>\<close> is the
  arithmetic shift; the product \<open>val * B4\<close> is cast back to \<open>chunk_t\<close>, so the last shift
  is the logical one.
\<close>

definition B1 :: chunk_t where
  "B1 = NOT 0 div 3"

definition B2 :: chunk_t where
  "B2 = NOT 0 div 15 * 3"

definition B3 :: chunk_t where
  "B3 = NOT 0 div 255 * 15"

definition B4 :: chunk_t where
  "B4 = NOT 0 div 255"

definition S1 :: nat where
  "S1 = (8 - 1) * 8"

definition CBITSa :: "long \<Rightarrow> long" where
  "CBITSa val = val - (signed_drop_bit 1 val AND B1)"

definition CBITSb :: "long \<Rightarrow> long" where
  "CBITSb val = (val AND B2) + (signed_drop_bit 2 val AND B2)"

definition CBITSc :: "long \<Rightarrow> long" where
  "CBITSc val = (val + signed_drop_bit 4 val) AND B3"

definition CBITS :: "long \<Rightarrow> long" where
  "CBITS val = CBITSc (CBITSb (CBITSa val))"

definition CBITS2 :: "long \<Rightarrow> chunk_t" where
  "CBITS2 val = drop_bit S1 (val * B4)"

definition sidewaysaddition_kernel :: "chunk_t \<Rightarrow> long" where
  "sidewaysaddition_kernel chunk = CBITS2 (CBITS chunk)"

text \<open>
  The compiler builtins \<open>__builtin_popcountl\<close> and \<open>__builtin_popcountll\<close> and the
  instruction \<open>popcnt\<close> are not code of the program: each returns the number of set bits
  of its 64-bit operand (the builtins as an \<open>int\<close>).
\<close>

definition builtin_popcountl :: "chunk_t \<Rightarrow> c_int" where
  "builtin_popcountl x = of_nat (pop_count x)"

definition builtin_popcountll :: "double_chunk_t \<Rightarrow> c_int" where
  "builtin_popcountll x = of_nat (pop_count x)"

definition popcnt :: "chunk_t \<Rightarrow> long" where
  "popcnt x = of_nat (pop_count x)"

definition intrinsic_kernel :: "chunk_t \<Rightarrow> long" where
  "intrinsic_kernel chunk = scast (builtin_popcountl chunk)"

definition intrinsic_kernel_double :: "double_chunk_t \<Rightarrow> long" where
  "intrinsic_kernel_double chunk = scast (builtin_popcountll chunk)"

section \<open>The counting functions\<close>

definition count_bits_table ::
  "c_int list \<Rightarrow> omp_env \<Rightarrow> memory \<Rightarrow> nat \<Rightarrow> size_t \<Rightarrow> long option" where
  "count_bits_table lookup_table = count_bits_kernel (table_kernel lookup_table)"

definition count_bits_kernighan :: "omp_env \<Rightarrow> memory \<Rightarrow> nat \<Rightarrow> size_t \<Rightarrow> long option" where
  "count_bits_kernighan = count_bits_kernel (\<lambda>chunk. Some (kernighan_kernel chunk))"

definition count_bits_sidewaysaddition ::
  "omp_env \<Rightarrow> memory \<Rightarrow> nat \<Rightarrow> size_t \<Rightarrow> long option" where
  "count_bits_sidewaysaddition = count_bits_kernel (\<lambda>chunk. Some (sidewaysaddition_kernel chunk))"

definition count_bits_intrinsic :: "omp_env \<Rightarrow> memory \<Rightarrow> nat \<Rightarrow> size_t \<Rightarrow> long option" where
  "count_bits_intrinsic = count_bits_kernel (\<lambda>chunk. Some (intrinsic_kernel chunk))"

definition count_bits_intrinsic_double ::
  "omp_env \<Rightarrow> memory \<Rightarrow> nat \<Rightarrow> size_t \<Rightarrow> long option" where
  "count_bits_intrinsic_double =
     count_bits_kernel_double (\<lambda>chunk. Some (intrinsic_kernel_double chunk))"

definition count_bits_optimized :: "omp_env \<Rightarrow> memory \<Rightarrow> nat \<Rightarrow> size_t \<Rightarrow> long option" where
  "count_bits_optimized =
     count_bits_kernel2 (\<lambda>chunk. Some (intrinsic_kernel chunk))
       (\<lambda>chunk. Some (sidewaysaddition_kernel chunk)) 1 1"

section \<open>The assembly loop\<close>

text \<open>
  The loop of \<open>count_bits_asm_chunked\<close> on its registers:
  \<open>1: popcnt (buffer), bitcount; add bitcount, total; add chunk_size, buffer; loop 1b\<close>.
  \<open>loop\<close> decrements the count register and jumps back while it is not zero.
\<close>

function asm_popcnt_loop :: "memory \<Rightarrow> nat \<Rightarrow> long \<Rightarrow> size_t \<Rightarrow> long option" where
  "asm_popcnt_loop m buffer tot ecx =
     (case read_chunk m buffer of
        None \<Rightarrow> None
      | Some chunk \<Rightarrow>
          if ecx - 1 \<noteq> 0
          then asm_popcnt_loop m (buffer + chunk_size) (tot + popcnt chunk) (ecx - 1)
          else Some (tot + popcnt chunk))"
  by pat_completeness auto
termination
proof (relation "measure (\<lambda>(m, buffer, tot, ecx). unat (ecx - 1))")
  show "wf (measure (\<lambda>(m :: memory, buffer :: nat, tot :: long, ecx :: size_t). unat (ecx - 1)))"
    by simp
next
  fix m :: memory and buffer :: nat and tot ecx :: size_t and chunk :: chunk_t
  assume "ecx - 1 \<noteq> 0"
  then have "unat (ecx - 1 - 1) < unat (ecx - 1)"
    by (rule measure_unat)
  then show "((m, buffer + chunk_size, tot + popcnt chunk, ecx - 1), (m, buffer, tot, ecx))
      \<in> measure (\<lambda>(m, buffer, tot, ecx). unat (ecx - 1))"
    by simp
qed

definition count_bits_asm_chunked :: "memory \<Rightarrow> nat \<Rightarrow> size_t \<Rightarrow> long option" where
  "count_bits_asm_chunked m buffer bufsize =
     (let iterations = bufsize div of_nat chunk_size
      in if iterations = 0 then Some 0 else asm_popcnt_loop m buffer 0 iterations)"

text \<open>\<open>num_threads()\<close>: the size of the team, or \<open>-1\<close> if it is not positive.\<close>

definition num_threads :: "omp_env \<Rightarrow> int" where
  "num_threads omp =
     (let n_threads = int (omp_num_threads omp) in if n_threads > 0 then n_threads else - 1)"

text \<open>
  The locals of \<open>count_bits_asm\<close>.  \<open>num_cores\<close> is an \<open>int\<close>; dividing or multiplying a
  \<open>size_t\<close> by it converts it to \<open>size_t\<close>.
\<close>

definition asm_bufsize_per_core :: "int \<Rightarrow> size_t \<Rightarrow> size_t" where
  "asm_bufsize_per_core num_cores bufsize =
     (let num_chunks = bufsize div of_nat chunk_size;
          chunks_per_core = num_chunks div of_int num_cores
      in chunks_per_core * of_nat chunk_size)"

definition asm_chunked_bufsize :: "int \<Rightarrow> size_t \<Rightarrow> size_t" where
  "asm_chunked_bufsize num_cores bufsize = of_int num_cores * asm_bufsize_per_core num_cores bufsize"

definition asm_leftover :: "int \<Rightarrow> size_t \<Rightarrow> size_t" where
  "asm_leftover num_cores bufsize = bufsize - asm_chunked_bufsize num_cores bufsize"

definition count_bits_asm :: "omp_env \<Rightarrow> memory \<Rightarrow> nat \<Rightarrow> size_t \<Rightarrow> long option" where
  "count_bits_asm omp m buffer bufsize =
     (let num_cores = num_threads omp;
          bufsize_per_core = asm_bufsize_per_core num_cores bufsize
      in add_leftover m buffer (asm_chunked_bufsize num_cores bufsize)
           (asm_leftover num_cores bufsize)
           (omp_parallel_reduction
              (\<lambda>(thread_id, cores).
                 omp_for
                   (\<lambda>core tot.
                      case count_bits_asm_chunked m
                             (buffer + unat (of_nat core * bufsize_per_core)) bufsize_per_core of
                        None \<Rightarrow> None
                      | Some num_bits \<Rightarrow> Some (tot + num_bits))
                   cores 0)
              (omp_schedule omp (nat num_cores)) 0))"

section \<open>Calling a counting function\<close>

text \<open>
  The state the program keeps between calls: the memory that holds the buffer, and the
  global \<open>lookup_table\<close>.
\<close>

record machine =
  machine_memory :: memory
  machine_lookup_table :: "c_int list"

text \<open>The functions that \<open>main\<close> passes to \<open>time_bit_counting\<close> as \<open>func\<close>.\<close>

datatype bit_counting_function =
    Count_bits_naive
  | Count_bits_table
  | Count_bits_kernighan
  | Count_bits_sidewaysaddition
  | Count_bits_intrinsic
  | Count_bits_intrinsic_double
  | Count_bits_asm
  | Count_bits_optimized

text \<open>
  The call \<open>func(buffer, bufsize)\<close> of \<open>time_bit_counting\<close>: the value returned and the
  state after the call.  The buffer is passed as \<open>const uchar *\<close>, and no counting
  function contains a store to memory or to \<open>lookup_table\<close>.
\<close>

definition call_counting ::
  "bit_counting_function \<Rightarrow> omp_env \<Rightarrow> nat \<Rightarrow> size_t \<Rightarrow> machine \<Rightarrow> long option \<times> machine" where
  "call_counting func omp buffer bufsize s =
     (let m = machine_memory s
      in (case func of
            Count_bits_naive \<Rightarrow> count_bits_naive m buffer bufsize
          | Count_bits_table \<Rightarrow> count_bits_table (machine_lookup_table s) omp m buffer bufsize
          | Count_bits_kernighan \<Rightarrow> count_bits_kernighan omp m buffer bufsize
          | Count_bits_sidewaysaddition \<Rightarrow> count_bits_sidewaysaddition omp m buffer bufsize
          | Count_bits_intrinsic \<Rightarrow> count_bits_intrinsic omp m buffer bufsize
          | Count_bits_intrinsic_double \<Rightarrow> count_bits_intrinsic_double omp m buffer bufsize
          | Count_bits_asm \<Rightarrow> count_bits_asm omp m buffer bufsize
          | Count_bits_optimized \<Rightarrow> count_bits_optimized omp m buffer bufsize,
          s))"

text \<open>The call \<open>init_lookup_table()\<close>: it stores to \<open>lookup_table\<close> only.\<close>

definition call_init_lookup_table :: "machine \<Rightarrow> machine option" where
  "call_init_lookup_table s =
     (case init_lookup_table (machine_lookup_table s) of
        None \<Rightarrow> None
      | Some t \<Rightarrow> Some (s\<lparr>machine_lookup_table := t\<rparr>))"

section \<open>main\<close>

text \<open>
  The start of \<open>main\<close>, up to the decision between the usage error and the benchmark.
  \<open>atol\<close> belongs to the C library and is a parameter; \<open>argc\<close> is the length of \<open>argv\<close>.
  The result of \<open>atol\<close>, a \<open>long\<close>, is converted to \<open>size_t\<close>, which keeps its bits.
\<close>

datatype main_result =
    Usage_error string c_int
  | Benchmark size_t size_t

definition megs_of_data :: "(string \<Rightarrow> long) \<Rightarrow> string list \<Rightarrow> size_t" where
  "megs_of_data atol argv = (if int (length argv) > 1 then atol (argv ! 1) else 100)"

text \<open>
  \<open>Usage_error text status\<close>: the text written to standard error, which ends with the
  newline of \<open>endl\<close>, and the status that \<open>main\<close> returns.  \<open>Benchmark megs bufsize\<close>: the program goes on to allocate and time
  a buffer of \<open>bufsize = megs * 1024 * 1024\<close> bytes.
\<close>

definition main :: "(string \<Rightarrow> long) \<Rightarrow> string list \<Rightarrow> main_result" where
  "main atol argv =
     (let megs = megs_of_data atol argv
      in if megs = 0
         then Usage_error (''Usage: '' @ argv ! 0 @ '' <megs of data>'' @ [CHR 0x0A]) (- 1)
         else Benchmark megs (megs * 1024 * 1024))"

declare kernighan_loop.simps [simp del]
declare asm_popcnt_loop.simps [simp del]

section \<open>Notions used to state and prove the properties\<close>

text \<open>
  \<open>readable m p n\<close>: the \<open>n\<close> bytes from address \<open>p\<close> on are mapped.
  \<open>buffer_bits m p n\<close>: the number of set bits in these bytes.
  \<open>chunk_at m p\<close>: the chunk whose bytes are the eight bytes at \<open>p\<close>.
\<close>

definition readable :: "memory \<Rightarrow> nat \<Rightarrow> nat \<Rightarrow> bool" where
  "readable m p n \<longleftrightarrow> (\<forall>k<n. m (p + k) \<noteq> None)"

definition buffer_bits :: "memory \<Rightarrow> nat \<Rightarrow> nat \<Rightarrow> nat" where
  "buffer_bits m p n = (\<Sum>k\<leftarrow>[0..<n]. pop_count (the (m (p + k))))"

definition chunk_at :: "memory \<Rightarrow> nat \<Rightarrow> chunk_t" where
  "chunk_at m p = chunk_of_bytes (map (\<lambda>k. the (m (p + k))) [0..<8])"

text \<open>The number of set bits of a natural number, by halving.\<close>

fun pcn :: "nat \<Rightarrow> nat" where
  "pcn n = (if n = 0 then 0 else n mod 2 + pcn (n div 2))"

declare pcn.simps [simp del]

text \<open>
  The three steps of the sideways addition on natural numbers, with the mask as a
  parameter; \<open>rep c n\<close> is the number whose \<open>n\<close> bytes are all \<open>c\<close>;
  \<open>bytesmap f n x\<close> applies \<open>f\<close> to each of the low \<open>n\<close> bytes of \<open>x\<close>, and
  \<open>bytesum f n x\<close> adds the results; \<open>nib_ok n x\<close> says that both halves of each of
  the low \<open>n\<close> bytes of \<open>x\<close> are at most 4.
\<close>

definition SA :: "nat \<Rightarrow> nat \<Rightarrow> nat" where
  "SA M x = x - ((x div 2) AND M)"

definition SB :: "nat \<Rightarrow> nat \<Rightarrow> nat" where
  "SB M x = (x AND M) + ((x div 4) AND M)"

definition SC :: "nat \<Rightarrow> nat \<Rightarrow> nat" where
  "SC M x = (x + x div 16) AND M"

fun rep :: "nat \<Rightarrow> nat \<Rightarrow> nat" where
  "rep c 0 = 0"
| "rep c (Suc n) = c + 256 * rep c n"

fun bytesmap :: "(nat \<Rightarrow> nat) \<Rightarrow> nat \<Rightarrow> nat \<Rightarrow> nat" where
  "bytesmap f 0 x = 0"
| "bytesmap f (Suc n) x = f (x mod 256) + 256 * bytesmap f n (x div 256)"

fun bytesum :: "(nat \<Rightarrow> nat) \<Rightarrow> nat \<Rightarrow> nat \<Rightarrow> nat" where
  "bytesum f 0 x = 0"
| "bytesum f (Suc n) x = f (x mod 256) + bytesum f n (x div 256)"

fun nib_ok :: "nat \<Rightarrow> nat \<Rightarrow> bool" where
  "nib_ok 0 x = True"
| "nib_ok (Suc n) x =
     ((x mod 256) mod 16 \<le> 4 \<and> (x mod 256) div 16 \<le> 4 \<and> nib_ok n (x div 256))"

text \<open>\<open>lookup_table_ok t\<close>: the table has 256 entries, and entry \<open>i\<close> is the number of set bits of the byte \<open>i\<close>.\<close>

definition lookup_table_ok :: "c_int list \<Rightarrow> bool" where
  "lookup_table_ok t \<longleftrightarrow>
     length t = 256 \<and> (\<forall>i<256. t ! i = of_nat (pop_count (of_nat i :: uchar)))"

text \<open>
  \<open>only_buffer m p n\<close>: the memory \<open>m\<close> with every address outside the \<open>n\<close> bytes at
  \<open>p\<close> unmapped, so that a read outside the buffer fails.
\<close>

definition only_buffer :: "memory \<Rightarrow> nat \<Rightarrow> nat \<Rightarrow> memory" where
  "only_buffer m p n = (\<lambda>a. if p \<le> a \<and> a < p + n then m a else None)"

text \<open>A buffer of two chunks and three more bytes, with 62 set bits, to instantiate the theorems.\<close>

definition example_buffer :: "uchar list" where
  "example_buffer =
     [0xB1, 0xFF, 0x00, 0x01, 0x80, 0x7F, 0x55, 0xAA,
      0x0F, 0xF0, 0x03, 0x00, 0xFF, 0x10, 0x20, 0x40,
      0xB1, 0x01, 0xFE]"

section \<open>Lemmas\<close>

lemma pcn_0 [simp]: "pcn 0 = 0"
  by (simp add: pcn.simps)

lemma pcn_double: "a < 2 \<Longrightarrow> pcn (a + 2 * x) = a + pcn x"
  by (subst pcn.simps) auto

lemma filter_bit_take_bit:
  "length (filter (bit (x::nat)) [0..<n]) = pcn (take_bit n x)"
proof (induction n arbitrary: x)
  case 0
  show ?case by simp
next
  case (Suc n)
  have upt: "[0..<Suc n] = 0 # map Suc [0..<n]"
    by (simp add: upt_conv_Cons map_Suc_upt del: upt_Suc)
  have "length (filter (bit x) [0..<Suc n]) =
        (if bit x 0 then 1 else 0) + length (filter (bit (x div 2)) [0..<n])"
    unfolding upt by (simp add: filter_map comp_def bit_Suc)
  also have "\<dots> = x mod 2 + pcn (take_bit n (x div 2))"
    by (simp add: Suc.IH bit_0 mod_2_eq_odd)
  also have "\<dots> = pcn (x mod 2 + 2 * take_bit n (x div 2))"
    by (rule pcn_double [symmetric]) simp
  also have "x mod 2 + 2 * take_bit n (x div 2) = take_bit (Suc n) x"
    by (simp add: take_bit_Suc)
  finally show ?case .
qed

lemma pop_count_pcn: "pop_count w = pcn (unat w)"
proof -
  have "filter (bit w) [0..<LENGTH('a)] = filter (bit (unat w)) [0..<LENGTH('a)]"
    by (rule filter_cong) (auto simp add: bit_unsigned_iff)
  then show ?thesis
    by (simp add: pop_count_def filter_bit_take_bit unsigned_take_bit_eq [symmetric] del: upt_Suc)
qed

lemma fold_count:
  "fold (\<lambda>i (bc::'a::len word). if P i then bc + 1 else bc) xs acc = acc + of_nat (length (filter P xs))"
  by (induction xs arbitrary: acc) simp_all

lemma naive_test: "i < 8 \<Longrightarrow> ((ucast (b::uchar) :: c_int) AND push_bit i 1 \<noteq> 0) = bit b i"
  by (simp add: and_exp_eq_0_iff_not_bit bit_ucast_iff)

lemma count_bits_naive_byte_eq:
  "count_bits_naive_byte b acc = acc + of_nat (pop_count b)"
proof -
  have "filter (\<lambda>i. (ucast b :: c_int) AND push_bit i 1 \<noteq> 0) [0..<8] = filter (bit b) [0..<8]"
  proof (rule filter_cong [OF refl])
    fix i assume "i \<in> set [0..<8::nat]"
    then have "i < 8" by simp
    then show "((ucast b :: c_int) AND push_bit i 1 \<noteq> 0) = bit b i"
      by (rule naive_test)
  qed
  then show ?thesis
    by (simp add: count_bits_naive_byte_def fold_count pop_count_def)
qed

lemma naive_loop_eq:
  "\<forall>k\<in>set ks. m (p + k) \<noteq> None \<Longrightarrow>
   count_bits_naive_loop m p ks acc = Some (acc + of_nat (\<Sum>k\<leftarrow>ks. pop_count (the (m (p + k)))))"
proof (induction ks arbitrary: acc)
  case Nil
  show ?case by simp
next
  case (Cons k ks)
  from Cons.prems obtain b where b: "m (p + k) = Some b" by auto
  from Cons.prems have "\<forall>k\<in>set ks. m (p + k) \<noteq> None" by simp
  from Cons.IH [OF this] show ?case
    by (simp add: b count_bits_naive_byte_eq add.assoc)
qed

lemma count_bits_naive_eq:
  assumes "readable m p (unat n)"
  shows "count_bits_naive m p n = Some (of_nat (buffer_bits m p (unat n)))"
proof -
  from assms have "\<forall>k\<in>set [0..<unat n]. m (p + k) \<noteq> None"
    by (simp add: readable_def)
  from naive_loop_eq [OF this, of 0] show ?thesis
    by (simp only: count_bits_naive_def buffer_bits_def add_0_left)
qed

lemma upt_split: "[0..<a + b] = [0..<a] @ map (\<lambda>k. a + k) [0..<b]"
proof -
  have "[0..<a + b] = [0..<a] @ [a..<a + b]"
    by (rule upt_add_eq_append) simp
  moreover have "map (\<lambda>k. a + k) [0..<b] = [a..<a + b]"
    using map_add_upt [of a b] by (simp only: add.commute)
  ultimately show ?thesis by (simp only:)
qed

lemma buffer_bits_add: "buffer_bits m p (a + b) = buffer_bits m p a + buffer_bits m (p + a) b"
  unfolding buffer_bits_def upt_split
  by (simp only: map_append sum_list_append map_map comp_def add.assoc)

lemma readable_add: "readable m p (a + b) \<longleftrightarrow> readable m p a \<and> readable m (p + a) b"
proof -
  have "(\<forall>k<a + b. m (p + k) \<noteq> None) \<longleftrightarrow> (\<forall>k\<in>set [0..<a + b]. m (p + k) \<noteq> None)"
    by auto
  also have "\<dots> \<longleftrightarrow> (\<forall>k\<in>set [0..<a]. m (p + k) \<noteq> None) \<and> (\<forall>k\<in>set [0..<b]. m (p + (a + k)) \<noteq> None)"
    unfolding upt_split by (simp only: set_append ball_Un set_map ball_simps)
  finally show ?thesis
    by (auto simp add: readable_def add.assoc)
qed

lemma pcn_rec: "pcn n = n mod 2 + pcn (n div 2)"
  by (cases "n = 0") (simp_all add: pcn.simps [of n])

lemma pcn_split: "pcn n = pcn (n mod 2 ^ k) + pcn (n div 2 ^ k)"
proof (induction k arbitrary: n)
  case 0
  show ?case by simp
next
  case (Suc k)
  have a: "(n mod 2 ^ Suc k) mod 2 = n mod 2"
    by (simp add: mod_mod_cancel)
  have b: "(n mod 2 ^ Suc k) div 2 = (n div 2) mod 2 ^ k"
    using drop_bit_take_bit [of 1 "Suc k" n] by (simp add: take_bit_eq_mod drop_bit_eq_div)
  have c: "n div 2 div 2 ^ k = n div 2 ^ Suc k"
    by (simp add: div_mult2_eq)
  have "pcn (n mod 2 ^ Suc k) = n mod 2 + pcn ((n div 2) mod 2 ^ k)"
    by (subst pcn_rec) (simp only: a b)
  moreover have "pcn n = n mod 2 + (pcn ((n div 2) mod 2 ^ k) + pcn (n div 2 div 2 ^ k))"
    by (subst pcn_rec) (simp only: Suc.IH [of "n div 2"])
  ultimately show ?case by (simp only: c)
qed

lemma pcn_byte: "b < 256 \<Longrightarrow> pcn (b + 256 * x) = pcn b + pcn x"
  using pcn_split [of "b + 256 * x" 8] by simp

lemma those_map_Some:
  "\<forall>x\<in>set xs. f x \<noteq> None \<Longrightarrow> those (map f xs) = Some (map (\<lambda>x. the (f x)) xs)"
  by (induction xs) auto

lemma read_chunk_eq: "readable m p 8 \<Longrightarrow> read_chunk m p = Some (chunk_at m p)"
proof -
  assume "readable m p 8"
  then have "\<forall>k\<in>set [0..<8]. m (p + k) \<noteq> None"
    by (simp add: readable_def)
  from those_map_Some [of "[0..<8]" "\<lambda>k. m (p + k)", OF this] show ?thesis
    by (simp only: read_chunk_def chunk_at_def chunk_size_def option.case)
qed

lemma unat_chunk_of_bytes:
  "length bs \<le> 8 \<Longrightarrow>
   unat (chunk_of_bytes bs) = foldr (\<lambda>b x. unat b + 256 * x) bs 0 \<and>
   unat (chunk_of_bytes bs) < 256 ^ length bs"
proof (induction bs)
  case Nil
  show ?case by (simp add: chunk_of_bytes_def)
next
  case (Cons b bs)
  let ?w = "chunk_of_bytes bs"
  from Cons have ih: "unat ?w = foldr (\<lambda>b x. unat b + 256 * x) bs 0"
    and bd: "unat ?w < 256 ^ length bs" and len: "length bs \<le> 7"
    by simp_all
  have "(256::nat) ^ length bs \<le> 256 ^ 7"
    using len by (intro power_increasing) simp_all
  with bd have bd7: "unat ?w < 256 ^ 7" by simp
  have b: "unat b < 256"
    using unsigned_less [of b, where 'a = nat] by simp
  have step: "chunk_of_bytes (b # bs) = ucast b + 256 * ?w"
    by (simp add: chunk_of_bytes_def)
  have ub: "unat (ucast b :: chunk_t) = unat b"
    using b by (simp add: unsigned_ucast_eq take_bit_nat_eq_self)
  have "unat (ucast b + 256 * ?w) = (unat b + 256 * unat ?w) mod 2 ^ 64"
    by (simp add: unat_word_ariths ub mod_simps)
  also have "\<dots> = unat b + 256 * unat ?w"
    using b bd7 by simp
  finally have eq: "unat (chunk_of_bytes (b # bs)) = unat b + 256 * unat ?w"
    by (simp only: step)
  have "unat b + 256 * unat ?w < 256 * 256 ^ length bs"
    using b bd by simp
  with eq ih show ?case by simp
qed

lemma pcn_foldr_bytes:
  "pcn (foldr (\<lambda>b x. unat (b::uchar) + 256 * x) bs 0) = (\<Sum>b\<leftarrow>bs. pop_count b)"
proof (induction bs)
  case Nil
  show ?case by simp
next
  case (Cons b bs)
  have b: "unat b < 256"
    using unsigned_less [of b, where 'a = nat] by simp
  show ?case
    by (simp add: pcn_byte [OF b] Cons.IH pop_count_pcn)
qed

lemma pop_count_chunk_of_bytes:
  "length bs \<le> 8 \<Longrightarrow> pop_count (chunk_of_bytes bs) = (\<Sum>b\<leftarrow>bs. pop_count b)"
  by (simp only: pop_count_pcn [of "chunk_of_bytes bs"] unat_chunk_of_bytes pcn_foldr_bytes)

lemma pop_count_chunk_at: "pop_count (chunk_at m p) = buffer_bits m p 8"
proof -
  have "length (map (\<lambda>k. the (m (p + k))) [0..<8]) \<le> 8" by simp
  from pop_count_chunk_of_bytes [OF this] show ?thesis
    by (simp only: chunk_at_def buffer_bits_def map_map comp_def)
qed

lemma unat_chunk_size: "unat (of_nat chunk_size :: 64 word) = 8"
  by (simp add: chunk_size_def)

lemma unat_kernel_num_chunks: "unat (kernel_num_chunks n) = unat n div 8"
  by (simp only: kernel_num_chunks_def unat_div unat_chunk_size)

lemma unat_lt_2p64: "unat (n :: 64 word) < 2 ^ 64"
  using unsigned_less [of n, where 'a = nat] by simp

lemma sint_small: 
  assumes "unat (w :: 'a::len word) < 2 ^ (LENGTH('a) - 1)"
  shows "sint w = uint w"
proof -
  have "int (unat w) < int (2 ^ (LENGTH('a) - 1))"
    using assms by (simp only: of_nat_less_iff)
  then have "uint w < 2 ^ (LENGTH('a) - 1)"
    by simp
  moreover have "- (2 ^ (LENGTH('a) - 1)) \<le> uint w"
    by (rule order_trans [of _ 0]) simp_all
  ultimately have "signed_take_bit (LENGTH('a) - Suc 0) (uint w) = uint w"
    by (simp only: signed_take_bit_int_eq_self One_nat_def)
  then show "sint w = uint w"
    by (simp only: sint_uint)
qed

lemma nat_sint_small:
  assumes "unat (w :: 'a::len word) < 2 ^ (LENGTH('a) - 1)"
  shows "nat (sint w) = unat w"
  using sint_small [OF assms] by simp

lemma nat_sint_kernel_num_chunks: "nat (sint (kernel_num_chunks n)) = unat n div 8"
proof -
  have "unat n div 8 < 2 ^ 63"
    using unat_lt_2p64 [of n] by simp
  then have "unat (kernel_num_chunks n) < 2 ^ (LENGTH(64) - 1)"
    by (simp add: unat_kernel_num_chunks)
  from nat_sint_small [OF this] show ?thesis
    by (simp only: unat_kernel_num_chunks)
qed

lemma unat_kernel_chunked_bufsize: "unat (kernel_chunked_bufsize n) = 8 * (unat n div 8)"
proof -
  have "unat n div 8 * 8 < 2 ^ 64"
    using unat_lt_2p64 [of n] by simp
  then have "unat (kernel_num_chunks n) * unat (of_nat chunk_size :: 64 word) < 2 ^ LENGTH(64)"
    by (simp only: unat_kernel_num_chunks unat_chunk_size len_bit0 len_num1) simp
  then have "unat (kernel_num_chunks n * of_nat chunk_size) =
             unat (kernel_num_chunks n) * unat (of_nat chunk_size :: 64 word)"
    by (simp only: unat_mult_lem)
  then show ?thesis
    by (simp only: kernel_chunked_bufsize_def unat_kernel_num_chunks unat_chunk_size mult.commute)
qed

lemma unat_leftover_size_t:
  "unat (n - kernel_chunked_bufsize n) = unat n mod 8"
proof -
  have "unat (kernel_chunked_bufsize n) \<le> unat n"
    by (simp add: unat_kernel_chunked_bufsize)
  then have "kernel_chunked_bufsize n \<le> n"
    by (simp only: word_le_nat_alt)
  then have "unat (n - kernel_chunked_bufsize n) = unat n - unat (kernel_chunked_bufsize n)"
    by (rule unat_sub)
  also have "\<dots> = unat n mod 8"
    by (simp add: unat_kernel_chunked_bufsize minus_mult_div_eq_mod)
  finally show ?thesis .
qed

lemma scast_ucast_small:
  assumes "unat (x :: 64 word) < 2 ^ 31"
  shows "(scast (ucast x :: 32 word) :: 64 word) = x"
proof -
  have u: "unat (ucast x :: 32 word) = unat x"
    using assms by (simp add: unsigned_ucast_eq take_bit_nat_eq_self)
  then have "unat (ucast x :: 32 word) < 2 ^ (LENGTH(32) - 1)"
    using assms by simp
  from sint_small [OF this] have "sint (ucast x :: 32 word) = uint (ucast x :: 32 word)" .
  then have "(scast (ucast x :: 32 word) :: 64 word) = word_of_int (uint (ucast x :: 32 word))"
    by (simp only: scast_eq)
  also have "\<dots> = word_of_nat (unat (ucast x :: 32 word))"
    by simp
  also have "\<dots> = x"
    by (simp only: u) simp
  finally show ?thesis .
qed

lemma scast_kernel_leftover:
  "scast (kernel_leftover n) = n - kernel_chunked_bufsize n"
proof -
  have "unat (n - kernel_chunked_bufsize n) < 2 ^ 31"
    by (simp add: unat_leftover_size_t)
  from scast_ucast_small [OF this] show ?thesis
    by (simp only: kernel_leftover_def)
qed

lemma omp_for_eq:
  assumes "\<forall>i\<in>set its. body i = (\<lambda>acc. Some (acc + r i))"
  shows "omp_for body its acc = Some (acc + (\<Sum>i\<leftarrow>its. r i))"
  using assms
proof (induction its arbitrary: acc)
  case Nil
  show ?case by simp
next
  case (Cons i its)
  from Cons.prems have b: "body i acc = Some (acc + r i)"
    and rest: "\<forall>i\<in>set its. body i = (\<lambda>acc. Some (acc + r i))"
    by simp_all
  show ?case
    by (simp add: b Cons.IH [OF rest] add.assoc)
qed

lemma kernel_loop_body_eq:
  assumes "readable m (p + i * 8) 8"
  shows "kernel_loop_body (\<lambda>c. Some (g c)) m p i = (\<lambda>acc. Some (acc + g (chunk_at m (p + i * 8))))"
  by (rule ext) (simp add: kernel_loop_body_def chunk_size_def read_chunk_eq [OF assms])

lemma omp_for_kernel:
  assumes "\<forall>i\<in>set its. readable m (p + i * 8) 8"
  shows "omp_for (kernel_loop_body (\<lambda>c. Some (g c)) m p) its acc =
         Some (acc + (\<Sum>i\<leftarrow>its. g (chunk_at m (p + i * 8))))"
  by (rule omp_for_eq) (use assms in \<open>simp add: kernel_loop_body_eq\<close>)

lemma omp_parallel_reduction_eq:
  assumes "\<forall>th\<in>set team. body th = Some (r th)"
  shows "omp_parallel_reduction body team tot = Some (tot + (\<Sum>th\<leftarrow>team. r th))"
  using assms
proof (induction team arbitrary: tot)
  case Nil
  show ?case by simp
next
  case (Cons th team)
  from Cons.prems have b: "body th = Some (r th)"
    and rest: "\<forall>th\<in>set team. body th = Some (r th)"
    by simp_all
  show ?case
    by (simp add: b Cons.IH [OF rest] add.assoc)
qed

lemma sum_list_mset_cong:
  fixes f :: "'a \<Rightarrow> 'b::comm_monoid_add"
  assumes "mset xs = mset ys"
  shows "(\<Sum>x\<leftarrow>xs. f x) = (\<Sum>x\<leftarrow>ys. f x)"
proof -
  have "mset (map f xs) = mset (map f ys)"
    using assms by (simp only: mset_map)
  then have "sum_mset (mset (map f xs)) = sum_mset (mset (map f ys))"
    by (simp only:)
  then show ?thesis
    by (simp only: sum_mset_sum_list)
qed

lemma sum_list_team:
  fixes f :: "nat \<Rightarrow> 'b::comm_monoid_add"
  shows "(\<Sum>th\<leftarrow>team. \<Sum>i\<leftarrow>snd th. f i) = (\<Sum>i\<leftarrow>concat (map snd team). f i)"
  by (induction team) simp_all

lemma readable_chunk:
  assumes "readable m p n" and "i < n div 8"
  shows "readable m (p + i * 8) 8"
proof -
  from assms(2) have "i * 8 + 8 \<le> n" by simp
  then obtain d where n: "n = (i * 8 + 8) + d"
    using le_Suc_ex by blast
  from assms(1) have "readable m p (i * 8 + 8)"
    unfolding n by (simp only: readable_add)
  then show ?thesis
    by (simp only: readable_add)
qed

lemma readable_tail:
  assumes "readable m p n"
  shows "readable m (p + 8 * (n div 8)) (n mod 8)"
proof -
  have "n = 8 * (n div 8) + n mod 8" by simp
  with assms have "readable m p (8 * (n div 8) + n mod 8)" by (simp only:)
  then show ?thesis by (simp only: readable_add)
qed

lemma chunks_bits:
  "(\<Sum>i\<leftarrow>[0..<N]. pop_count (chunk_at m (p + i * 8))) = buffer_bits m p (8 * N)"
proof (induction N)
  case 0
  show ?case by (simp add: buffer_bits_def)
next
  case (Suc N)
  have "(\<Sum>i\<leftarrow>[0..<Suc N]. pop_count (chunk_at m (p + i * 8))) =
        (\<Sum>i\<leftarrow>[0..<N]. pop_count (chunk_at m (p + i * 8))) + pop_count (chunk_at m (p + N * 8))"
    by simp
  also have "\<dots> = buffer_bits m p (8 * N) + buffer_bits m (p + 8 * N) 8"
    by (simp only: Suc.IH) (simp only: pop_count_chunk_at mult.commute)
  also have "\<dots> = buffer_bits m p (8 * N + 8)"
    by (simp only: buffer_bits_add)
  also have "8 * N + 8 = 8 * Suc N"
    by simp
  finally show ?case .
qed

lemma of_nat_sum_list:
  "(of_nat (\<Sum>x\<leftarrow>xs. f x) :: 'a::semiring_1) = (\<Sum>x\<leftarrow>xs. of_nat (f x))"
  by (induction xs) simp_all

lemma add_leftover_eq:
  assumes "readable m (p + unat cb) (unat lo)"
  shows "add_leftover m p cb lo (Some t) =
         Some (t + of_nat (buffer_bits m (p + unat cb) (unat lo)))"
  by (simp add: add_leftover_def count_bits_naive_eq [OF assms])

lemma omp_schedule_iters:
  "omp_env_ok omp \<Longrightarrow> mset (concat (map snd (omp_schedule omp n))) = mset [0..<n]"
  by (simp add: omp_env_ok_def)

lemma omp_schedule_set:
  assumes "omp_env_ok omp" and "th \<in> set (omp_schedule omp n)" and "i \<in> set (snd th)"
  shows "i < n"
proof -
  from assms(2,3) have "i \<in> set (concat (map snd (omp_schedule omp n)))"
    by auto
  then have "i \<in># mset (concat (map snd (omp_schedule omp n)))"
    by (simp only: set_mset_mset)
  then have "i \<in># mset [0..<n]"
    by (simp only: omp_schedule_iters [OF assms(1)])
  then show ?thesis by simp
qed

lemma count_bits_kernel_eq:
  assumes ok: "omp_env_ok omp" and rd: "readable m p (unat n)"
  shows "count_bits_kernel (\<lambda>c. Some (g c)) omp m p n =
         Some ((\<Sum>i\<leftarrow>[0..<unat n div 8]. g (chunk_at m (p + i * 8))) +
               of_nat (buffer_bits m (p + 8 * (unat n div 8)) (unat n mod 8)))"
proof -
  let ?N = "unat n div 8"
  let ?team = "omp_schedule omp ?N"
  let ?G = "\<lambda>i. g (chunk_at m (p + i * 8))"
  have thr: "\<forall>th\<in>set ?team.
      (\<lambda>(thread_id, iters). omp_for (kernel_loop_body (\<lambda>c. Some (g c)) m p) iters 0) th =
      Some (\<Sum>i\<leftarrow>snd th. ?G i)"
  proof
    fix th assume th: "th \<in> set ?team"
    have "\<forall>i\<in>set (snd th). readable m (p + i * 8) 8"
      using omp_schedule_set [OF ok th] readable_chunk [OF rd] by blast
    from omp_for_kernel [OF this, of g 0] show
      "(\<lambda>(thread_id, iters). omp_for (kernel_loop_body (\<lambda>c. Some (g c)) m p) iters 0) th =
       Some (\<Sum>i\<leftarrow>snd th. ?G i)"
      by (simp add: case_prod_unfold)
  qed
  have par: "omp_parallel_reduction
      (\<lambda>(thread_id, iters). omp_for (kernel_loop_body (\<lambda>c. Some (g c)) m p) iters 0) ?team 0 =
      Some (\<Sum>i\<leftarrow>[0..<?N]. ?G i)"
    unfolding omp_parallel_reduction_eq [OF thr]
    by (simp only: sum_list_team add_0_left
        sum_list_mset_cong [OF omp_schedule_iters [OF ok]])
  have tail: "readable m (p + unat (kernel_chunked_bufsize n))
      (unat (scast (kernel_leftover n) :: size_t))"
    using readable_tail [OF rd]
    by (simp only: scast_kernel_leftover unat_leftover_size_t unat_kernel_chunked_bufsize)
  show ?thesis
    unfolding count_bits_kernel_def nat_sint_kernel_num_chunks par add_leftover_eq [OF tail]
    by (simp only: scast_kernel_leftover unat_leftover_size_t unat_kernel_chunked_bufsize)
qed

lemma pop_count_le: "pop_count (w :: 'a::len word) \<le> LENGTH('a)"
proof -
  have "length (filter (bit w) [0..<LENGTH('a)]) \<le> length [0..<LENGTH('a)]"
    by (rule length_filter_le)
  then show ?thesis by (simp add: pop_count_def)
qed

lemma scast_of_nat_small:
  assumes "k < 2 ^ 31"
  shows "(scast (word_of_nat k :: 32 word) :: 64 word) = word_of_nat k"
proof -
  have u: "unat (word_of_nat k :: 32 word) = k"
    using assms by (simp add: unat_of_nat)
  then have "unat (word_of_nat k :: 32 word) < 2 ^ (LENGTH(32) - 1)"
    using assms by simp
  from sint_small [OF this]
  have "(scast (word_of_nat k :: 32 word) :: 64 word) = word_of_int (uint (word_of_nat k :: 32 word))"
    by (simp only: scast_eq)
  also have "\<dots> = word_of_nat (unat (word_of_nat k :: 32 word))"
    by simp
  finally show ?thesis
    by (simp only: u)
qed

lemma intrinsic_kernel_eq: "intrinsic_kernel c = of_nat (pop_count c)"
proof -
  have "pop_count c < 2 ^ 31"
    using pop_count_le [of c] by simp
  then show ?thesis
    by (simp only: intrinsic_kernel_def builtin_popcountl_def scast_of_nat_small)
qed

lemma intrinsic_kernel_double_eq: "intrinsic_kernel_double c = of_nat (pop_count c)"
proof -
  have "pop_count c < 2 ^ 31"
    using pop_count_le [of c] by simp
  then show ?thesis
    by (simp only: intrinsic_kernel_double_def builtin_popcountll_def scast_of_nat_small)
qed

lemma pcn_clear_lowest: "0 < x \<Longrightarrow> Suc (pcn (x AND (x - 1))) = pcn x"
proof (induction x rule: less_induct)
  case (less x)
  show ?case
  proof (cases "even x")
    case False
    then obtain k where x: "x = 2 * k + 1"
      by (auto elim: oddE)
    have "(2 * k + 1) AND (2 * k) = 2 * k"
      by (subst and_nat_rec) simp
    then have "x AND (x - 1) = 0 + 2 * k"
      by (simp add: x)
    then have "pcn (x AND (x - 1)) = pcn k"
      using pcn_double [of 0 k] by simp
    moreover have "pcn x = 1 + pcn k"
      using pcn_double [of 1 k] by (simp add: x)
    ultimately show ?thesis by simp
  next
    case True
    with less.prems obtain k where x: "x = 2 * k" and pos: "0 < k"
      by (auto elim: evenE)
    have d: "(2 * k - Suc 0) div 2 = k - Suc 0"
      using pos by arith
    have "(2 * k) AND (2 * k - 1) = 2 * (k AND (k - 1))"
      by (subst and_nat_rec) (simp add: d)
    then have "x AND (x - 1) = 0 + 2 * (k AND (k - 1))"
      by (simp add: x)
    then have "pcn (x AND (x - 1)) = pcn (k AND (k - 1))"
      using pcn_double [of 0 "k AND (k - 1)"] by simp
    moreover have "pcn x = pcn k"
      using pcn_double [of 0 k] by (simp add: x)
    moreover have "k < x"
      using pos by (simp add: x)
    ultimately show ?thesis
      using less.IH [OF _ pos] by simp
  qed
qed

lemma pop_count_clear_lowest:
  assumes "c \<noteq> (0 :: 'a::len word)"
  shows "Suc (pop_count (c AND (c - 1))) = pop_count c"
proof -
  have "0 < unat c"
    using assms by (simp add: unat_gt_0)
  from pcn_clear_lowest [OF this] show ?thesis
    by (simp only: pop_count_pcn unsigned_and_eq unat_minus_one [OF assms])
qed

lemma kernighan_loop_eq:
  "kernighan_loop c tot n = (tot + of_nat (pop_count c), n + pop_count c)"
proof (induction c tot n rule: kernighan_loop.induct)
  case (1 chunk tot n)
  show ?case
  proof (cases "chunk = 0")
    case True
    then show ?thesis
      by (subst kernighan_loop.simps) (simp add: pop_count_pcn)
  next
    case False
    have s: "Suc (pop_count (kernighan_step chunk)) = pop_count chunk"
      unfolding kernighan_step_def using False by (rule pop_count_clear_lowest)
    have "kernighan_loop chunk tot n = kernighan_loop (kernighan_step chunk) (tot + 1) (Suc n)"
      using False by (subst kernighan_loop.simps) simp
    also have "\<dots> = (tot + 1 + of_nat (pop_count (kernighan_step chunk)),
                     Suc n + pop_count (kernighan_step chunk))"
      using False by (rule "1.IH")
    also have "\<dots> = (tot + of_nat (Suc (pop_count (kernighan_step chunk))),
                     n + Suc (pop_count (kernighan_step chunk)))"
      by simp
    finally show ?thesis
      by (simp only: s)
  qed
qed

lemma kernighan_kernel_eq: "kernighan_kernel c = of_nat (pop_count c)"
  by (simp add: kernighan_kernel_def kernighan_loop_eq)

lemma and_nat_le1: "(x::nat) AND y \<le> x"
proof -
  have "int x AND int y \<le> int x"
    by (rule AND_upper1) simp
  then have "int (x AND y) \<le> int x"
    by (simp only: of_nat_and_eq)
  then show ?thesis by (simp only: of_nat_le_iff)
qed

lemma and_nat_le2: "(x::nat) AND y \<le> y"
  using and_nat_le1 [of y x] by (simp only: and.commute)

lemma and_split:
  assumes "c < 256"
  shows "(y::nat) AND (c + 256 * M) = ((y mod 256) AND c) + 256 * ((y div 256) AND M)"
proof -
  let ?z = "c + 256 * M"
  have t: "take_bit 8 ?z = c"
    using assms by (simp add: take_bit_eq_mod)
  have d: "drop_bit 8 ?z = M"
    using assms by (simp add: drop_bit_eq_div)
  have "y AND ?z = push_bit 8 (drop_bit 8 (y AND ?z)) + take_bit 8 (y AND ?z)"
    by (simp only: bits_ident)
  also have "\<dots> = push_bit 8 (drop_bit 8 y AND M) + (take_bit 8 y AND c)"
    by (simp only: take_bit_and drop_bit_and t d)
  also have "\<dots> = ((y mod 256) AND c) + 256 * ((y div 256) AND M)"
  proof -
    have p: "\<And>z::nat. push_bit 8 z = 256 * z"
      by (simp add: push_bit_eq_mult)
    have tb: "take_bit 8 y = y mod 256"
      by (simp add: take_bit_eq_mod)
    have db: "drop_bit 8 y = y div 256"
      by (simp add: drop_bit_eq_div)
    show ?thesis
      by (simp only: p tb db add.commute)
  qed
  finally show ?thesis .
qed

lemma and_low:
  assumes "m < 2 ^ k"
  shows "(y::nat) AND m = (y mod 2 ^ k) AND m"
proof -
  have "y AND m \<le> m" by (rule and_nat_le2)
  with assms have "y AND m < 2 ^ k" by simp
  then have "y AND m = take_bit k (y AND m)"
    by (simp only: take_bit_nat_eq_self)
  also have "\<dots> = take_bit k y AND take_bit k m"
    by (simp only: take_bit_and)
  also have "take_bit k m = m"
    using assms by (simp only: take_bit_nat_eq_self)
  finally show ?thesis by (simp only: take_bit_eq_mod)
qed

lemma byte_cons_less: "(a::nat) < 256 \<Longrightarrow> b < 256 ^ n \<Longrightarrow> a + 256 * b < 256 ^ Suc n"
  by simp

lemma bytesmap_bound:
  assumes "\<forall>b<256. f b < 256"
  shows "bytesmap f n x < 256 ^ n"
proof (induction n arbitrary: x)
  case 0
  show ?case by simp
next
  case (Suc n)
  have "f (x mod 256) < 256" using assms by simp
  moreover have "bytesmap f n (x div 256) < 256 ^ n" by (rule Suc.IH)
  ultimately show ?case
    unfolding bytesmap.simps by (rule byte_cons_less)
qed

lemma bytesmap_comp:
  assumes "\<forall>b<256. f b < 256"
  shows "bytesmap g n (bytesmap f n x) = bytesmap (\<lambda>b. g (f b)) n x"
proof (induction n arbitrary: x)
  case 0
  show ?case by simp
next
  case (Suc n)
  have "f (x mod 256) < 256" using assms by simp
  then show ?case by (simp add: Suc.IH)
qed

lemma bytesmap_cong:
  assumes "\<forall>b<256. f b = g b"
  shows "bytesmap f n x = bytesmap g n x"
proof (induction n arbitrary: x)
  case 0
  show ?case by simp
next
  case (Suc n)
  have "f (x mod 256) = g (x mod 256)" using assms by simp
  then show ?case by (simp add: Suc.IH)
qed

lemma shift_low:
  assumes "k \<le> 8"
  shows "((x::nat) div 2 ^ k) mod 2 ^ (8 - k) = (x mod 256) div 2 ^ k"
proof -
  have "drop_bit k (take_bit 8 x) = take_bit (8 - k) (drop_bit k x)"
    by (rule drop_bit_take_bit)
  then show ?thesis
    by (simp add: take_bit_eq_mod drop_bit_eq_div)
qed

lemma shift_high: "(x::nat) div 2 ^ k div 256 = x div 256 div 2 ^ k"
  by (simp only: div_mult2_eq [symmetric] mult.commute)

lemma shift_and_split:
  assumes c: "c < 2 ^ (8 - k)" and k: "k \<le> 8"
  shows "((x::nat) div 2 ^ k) AND (c + 256 * M) =
         (((x mod 256) div 2 ^ k) AND c) + 256 * (((x div 256) div 2 ^ k) AND M)"
proof -
  have "(2::nat) ^ (8 - k) \<le> 2 ^ 8"
    by (rule power_increasing) simp_all
  with c have c256: "c < 256" by simp
  have "((x div 2 ^ k) mod 256) AND c = (((x div 2 ^ k) mod 256) mod 2 ^ (8 - k)) AND c"
    using c by (rule and_low)
  also have "((x div 2 ^ k) mod 256) mod 2 ^ (8 - k) = (x div 2 ^ k) mod 2 ^ (8 - k)"
  proof -
    have "(2::nat) ^ (8 - k) dvd 2 ^ 8"
      by (rule le_imp_power_dvd) simp
    then have "(2::nat) ^ (8 - k) dvd 256" by simp
    then show ?thesis by (rule mod_mod_cancel)
  qed
  also have "\<dots> = (x mod 256) div 2 ^ k"
    using k by (rule shift_low)
  finally have low: "((x div 2 ^ k) mod 256) AND c = ((x mod 256) div 2 ^ k) AND c" .
  show ?thesis
    by (simp only: and_split [OF c256] low shift_high)
qed

lemma sub_split:
  "p \<le> b \<Longrightarrow> q \<le> y \<Longrightarrow> (b + 256 * y) - (p + 256 * q) = (b - p) + 256 * (y - q)" for b :: nat
  by arith

lemma div_less_256: "x < 256 ^ Suc n \<Longrightarrow> x div 256 < 256 ^ n" for x :: nat
  by (simp add: less_mult_imp_div_less)

lemma SA_bytes: "x < 256 ^ n \<Longrightarrow> SA (rep 85 n) x = bytesmap (SA 85) n x"
proof (induction n arbitrary: x)
  case 0
  then show ?case by (simp add: SA_def)
next
  case (Suc n)
  let ?b = "x mod 256" and ?y = "x div 256"
  let ?M = "rep 85 n"
  have x': "?y < 256 ^ n"
    using Suc.prems by (rule div_less_256)
  have sp: "(x div 2 ^ 1) AND (85 + 256 * ?M) =
        ((?b div 2 ^ 1) AND 85) + 256 * ((?y div 2 ^ 1) AND ?M)"
    by (rule shift_and_split) simp_all
  have le1: "(?b div 2 ^ 1) AND 85 \<le> ?b"
    by (rule order_trans [OF and_nat_le1]) simp
  have le2: "(?y div 2 ^ 1) AND ?M \<le> ?y"
    by (rule order_trans [OF and_nat_le1]) simp
  have x: "x = ?b + 256 * ?y"
    by simp
  have "SA (rep 85 (Suc n)) x = x - ((x div 2 ^ 1) AND (85 + 256 * ?M))"
    by (simp add: SA_def)
  also have "\<dots> = (?b + 256 * ?y) - (((?b div 2 ^ 1) AND 85) + 256 * ((?y div 2 ^ 1) AND ?M))"
    unfolding sp using x by (simp only:)
  also have "\<dots> = (?b - ((?b div 2 ^ 1) AND 85)) + 256 * (?y - ((?y div 2 ^ 1) AND ?M))"
    using le1 le2 by (rule sub_split)
  also have "\<dots> = SA 85 ?b + 256 * SA ?M ?y"
    by (simp add: SA_def)
  finally show ?case
    by (simp only: Suc.IH [OF x'] bytesmap.simps)
qed

lemma SB_bytes: "SB (rep 51 n) x = bytesmap (SB 51) n x"
proof (induction n arbitrary: x)
  case 0
  then show ?case by (simp add: SB_def)
next
  case (Suc n)
  let ?b = "x mod 256" and ?y = "x div 256"
  let ?M = "rep 51 n"
  have sp1: "x AND (51 + 256 * ?M) = (?b AND 51) + 256 * (?y AND ?M)"
    by (rule and_split) simp
  have sp2: "(x div 2 ^ 2) AND (51 + 256 * ?M) =
        ((?b div 2 ^ 2) AND 51) + 256 * ((?y div 2 ^ 2) AND ?M)"
    by (rule shift_and_split) simp_all
  have "SB (rep 51 (Suc n)) x = (x AND (51 + 256 * ?M)) + ((x div 2 ^ 2) AND (51 + 256 * ?M))"
    by (simp add: SB_def)
  also have "\<dots> = ((?b AND 51) + ((?b div 2 ^ 2) AND 51)) +
                 256 * ((?y AND ?M) + ((?y div 2 ^ 2) AND ?M))"
    unfolding sp1 sp2 by (simp only: add_mult_distrib2 ac_simps)
  also have "\<dots> = SB 51 ?b + 256 * SB ?M ?y"
    by (simp add: SB_def)
  finally show ?case
    by (simp only: Suc.IH bytesmap.simps)
qed

lemma nib_ok_low: "x < 256 ^ n \<Longrightarrow> nib_ok n x \<Longrightarrow> x mod 16 \<le> 4"
proof (cases n)
  case 0
  assume "x < 256 ^ n"
  with 0 show ?thesis by simp
next
  case (Suc k)
  assume "nib_ok n x"
  with Suc have "(x mod 256) mod 16 \<le> 4" by simp
  moreover have "(x mod 256) mod 16 = x mod 16"
    by (rule mod_mod_cancel) simp
  ultimately show ?thesis by simp
qed

lemma SC_arith:
  fixes b c r q :: nat
  assumes "b + c + 16 * r < 256"
  shows "((b + 256 * (r + 16 * q)) + (c + 16 * (r + 16 * q))) div 256 = (r + 16 * q) + q"
    and "((b + 256 * (r + 16 * q)) + (c + 16 * (r + 16 * q))) mod 256 mod 16 = (b + c) mod 16"
proof -
  define a K where "a = b + c + 16 * r" and "K = (r + 16 * q) + q"
  have eq: "(b + 256 * (r + 16 * q)) + (c + 16 * (r + 16 * q)) = a + 256 * K"
    by (simp add: a_def K_def)
  have a: "a < 256"
    using assms by (simp only: a_def)
  have "(a + 256 * K) div 256 = K + a div 256"
    by (rule div_mult_self2) simp
  also have "a div 256 = 0"
    using a by simp
  finally show "((b + 256 * (r + 16 * q)) + (c + 16 * (r + 16 * q))) div 256 = (r + 16 * q) + q"
    unfolding eq by (simp add: K_def)
  have "(a + 256 * K) mod 256 = a mod 256"
    by (rule mod_mult_self2)
  also have "\<dots> = a"
    using a by simp
  finally have "(a + 256 * K) mod 256 mod 16 = a mod 16"
    by (simp only:)
  also have "a mod 16 = (b + c) mod 16"
    unfolding a_def by (rule mod_mult_self2)
  finally show "((b + 256 * (r + 16 * q)) + (c + 16 * (r + 16 * q))) mod 256 mod 16 = (b + c) mod 16"
    unfolding eq .
qed

lemma SC_step:
  fixes b y :: nat
  assumes n1: "b mod 16 \<le> 4" and n2: "b div 16 \<le> 4" and n3: "y mod 16 \<le> 4"
  shows "((b + 256 * y) + (b + 256 * y) div 16) div 256 = y + y div 16"
    and "((b + 256 * y) + (b + 256 * y) div 16) mod 256 mod 16 = (b + b div 16) mod 16"
proof -
  define c r q where "c = b div 16" and "r = y mod 16" and "q = y div 16"
  have y: "y = r + 16 * q"
    by (simp add: r_def q_def)
  have bb: "b = b mod 16 + 16 * c"
    by (simp add: c_def)
  have d: "(b + 256 * y) div 16 = c + 16 * y"
    by (simp add: c_def)
  have "b mod 16 + 16 * c + c + 16 * r < 256"
    using n1 n2 n3 unfolding c_def [symmetric] r_def [symmetric] by linarith
  with bb have bound: "b + c + 16 * r < 256"
    by (simp only:)
  show "((b + 256 * y) + (b + 256 * y) div 16) div 256 = y + y div 16"
    unfolding d q_def [symmetric] unfolding y by (rule SC_arith(1) [OF bound])
  show "((b + 256 * y) + (b + 256 * y) div 16) mod 256 mod 16 = (b + b div 16) mod 16"
    unfolding d c_def [symmetric] unfolding y by (rule SC_arith(2) [OF bound])
qed

lemma SC_bytes: "x < 256 ^ n \<Longrightarrow> nib_ok n x \<Longrightarrow> SC (rep 15 n) x = bytesmap (SC 15) n x"
proof (induction n arbitrary: x)
  case 0
  then show ?case by (simp add: SC_def)
next
  case (Suc n)
  define b y where "b = x mod 256" and "y = x div 256"
  let ?M = "rep 15 n"
  have x: "x = b + 256 * y"
    by (simp add: b_def y_def)
  have y: "y < 256 ^ n"
    unfolding y_def using Suc.prems(1) by (rule div_less_256)
  from Suc.prems(2) have n1: "b mod 16 \<le> 4" and n2: "b div 16 \<le> 4" and ok: "nib_ok n y"
    by (simp_all add: b_def y_def)
  have n3: "y mod 16 \<le> 4"
    using y ok by (rule nib_ok_low)
  let ?s = "(b + 256 * y) + (b + 256 * y) div 16"
  have hi: "?s div 256 = y + y div 16"
    using n1 n2 n3 by (rule SC_step(1))
  have "(?s mod 256) AND 15 = ((?s mod 256) mod 2 ^ 4) AND 15"
    by (rule and_low) simp
  also have "(?s mod 256) mod 2 ^ 4 = (b + b div 16) mod 2 ^ 4"
    using SC_step(2) [OF n1 n2 n3] by simp
  also have "((b + b div 16) mod 2 ^ 4) AND 15 = (b + b div 16) AND 15"
    by (rule and_low [symmetric]) simp
  finally have lo: "(?s mod 256) AND 15 = (b + b div 16) AND 15" .
  have "SC (rep 15 (Suc n)) x = ?s AND (15 + 256 * ?M)"
    by (simp add: SC_def x)
  also have "\<dots> = ((?s mod 256) AND 15) + 256 * ((?s div 256) AND ?M)"
    by (rule and_split) simp
  also have "\<dots> = SC 15 b + 256 * SC ?M y"
    by (simp only: lo hi SC_def)
  also have "\<dots> = SC 15 b + 256 * bytesmap (SC 15) n y"
    by (simp only: Suc.IH [OF y ok])
  finally show ?case
    by (simp only: bytesmap.simps b_def y_def)
qed

lemma nib_ok_bytesmap:
  assumes "\<forall>b<256. f b < 256 \<and> f b mod 16 \<le> 4 \<and> f b div 16 \<le> 4"
  shows "nib_ok n (bytesmap f n x)"
proof (induction n arbitrary: x)
  case 0
  show ?case by simp
next
  case (Suc n)
  have "f (x mod 256) < 256 \<and> f (x mod 256) mod 16 \<le> 4 \<and> f (x mod 256) div 16 \<le> 4"
    using assms by simp
  then show ?case by (simp add: Suc.IH)
qed

lemma all_less_numeral:
  "(\<forall>b<numeral k. P b) \<longleftrightarrow> P (pred_numeral k) \<and> (\<forall>b<pred_numeral k. P b)"
  by (simp add: numeral_eq_Suc less_Suc_eq) blast

lemma byte_table:
  "\<forall>b<256. SA 85 b < 256 \<and>
      SB 51 (SA 85 b) < 256 \<and> SB 51 (SA 85 b) mod 16 \<le> 4 \<and> SB 51 (SA 85 b) div 16 \<le> 4 \<and>
      SC 15 (SB 51 (SA 85 b)) = pcn b \<and> pcn b \<le> 8"
  by (simp add: all_less_numeral SA_def SB_def SC_def pcn.simps
      numeral_2_eq_2 [symmetric] numeral_3_eq_3 [symmetric])

lemma byte_facts:
  assumes "b < 256"
  shows "SA 85 b < 256" and "SB 51 (SA 85 b) < 256"
    and "SB 51 (SA 85 b) mod 16 \<le> 4" and "SB 51 (SA 85 b) div 16 \<le> 4"
    and "SC 15 (SB 51 (SA 85 b)) = pcn b" and "pcn b \<le> 8"
proof -
  from byte_table assms have *: "SA 85 b < 256 \<and>
      SB 51 (SA 85 b) < 256 \<and> SB 51 (SA 85 b) mod 16 \<le> 4 \<and> SB 51 (SA 85 b) div 16 \<le> 4 \<and>
      SC 15 (SB 51 (SA 85 b)) = pcn b \<and> pcn b \<le> 8"
    by blast
  from * show "SA 85 b < 256" by (elim conjE)
  from * show "SB 51 (SA 85 b) < 256" by (elim conjE)
  from * show "SB 51 (SA 85 b) mod 16 \<le> 4" by (elim conjE)
  from * show "SB 51 (SA 85 b) div 16 \<le> 4" by (elim conjE)
  from * show "SC 15 (SB 51 (SA 85 b)) = pcn b" by (elim conjE)
  from * show "pcn b \<le> 8" by (elim conjE)
qed

lemma swar_bytes:
  assumes "x < 256 ^ n"
  shows "SC (rep 15 n) (SB (rep 51 n) (SA (rep 85 n) x)) = bytesmap pcn n x"
proof -
  have a: "SA (rep 85 n) x = bytesmap (SA 85) n x"
    using assms by (rule SA_bytes)
  have fa: "\<forall>b<256. SA 85 b < 256"
    by (simp add: byte_facts)
  have b: "SB (rep 51 n) (bytesmap (SA 85) n x) = bytesmap (\<lambda>b. SB 51 (SA 85 b)) n x"
    by (simp only: SB_bytes bytesmap_comp [OF fa])
  have fb: "\<forall>b<256. SB 51 (SA 85 b) < 256"
    by (simp add: byte_facts)
  have fb': "\<forall>b<256. SB 51 (SA 85 b) < 256 \<and> SB 51 (SA 85 b) mod 16 \<le> 4 \<and> SB 51 (SA 85 b) div 16 \<le> 4"
    by (simp add: byte_facts)
  have bd: "bytesmap (\<lambda>b. SB 51 (SA 85 b)) n x < 256 ^ n"
    using fb by (rule bytesmap_bound)
  have ok: "nib_ok n (bytesmap (\<lambda>b. SB 51 (SA 85 b)) n x)"
    using fb' by (rule nib_ok_bytesmap)
  have c: "SC (rep 15 n) (bytesmap (\<lambda>b. SB 51 (SA 85 b)) n x) =
           bytesmap (\<lambda>b. SC 15 (SB 51 (SA 85 b))) n x"
    by (simp only: SC_bytes [OF bd ok] bytesmap_comp [OF fb])
  have "\<forall>b<256. SC 15 (SB 51 (SA 85 b)) = pcn b"
    by (simp add: byte_facts)
  then have "bytesmap (\<lambda>b. SC 15 (SB 51 (SA 85 b))) n x = bytesmap pcn n x"
    by (rule bytesmap_cong)
  then show ?thesis
    by (simp only: a b c)
qed

lemma swar_nib_ok:
  assumes "x < 256 ^ n"
  shows "nib_ok n (SB (rep 51 n) (SA (rep 85 n) x))"
    and "SB (rep 51 n) (SA (rep 85 n) x) < 256 ^ n"
    and "SA (rep 85 n) x < 256 ^ n"
proof -
  have a: "SA (rep 85 n) x = bytesmap (SA 85) n x"
    using assms by (rule SA_bytes)
  have fa: "\<forall>b<256. SA 85 b < 256"
    by (simp add: byte_facts)
  have b: "SB (rep 51 n) (bytesmap (SA 85) n x) = bytesmap (\<lambda>b. SB 51 (SA 85 b)) n x"
    by (simp only: SB_bytes bytesmap_comp [OF fa])
  have fb: "\<forall>b<256. SB 51 (SA 85 b) < 256"
    by (simp add: byte_facts)
  have fb': "\<forall>b<256. SB 51 (SA 85 b) < 256 \<and> SB 51 (SA 85 b) mod 16 \<le> 4 \<and> SB 51 (SA 85 b) div 16 \<le> 4"
    by (simp add: byte_facts)
  show "nib_ok n (SB (rep 51 n) (SA (rep 85 n) x))"
    unfolding a b using fb' by (rule nib_ok_bytesmap)
  show "SB (rep 51 n) (SA (rep 85 n) x) < 256 ^ n"
    unfolding a b using fb by (rule bytesmap_bound)
  show "SA (rep 85 n) x < 256 ^ n"
    unfolding a using fa by (rule bytesmap_bound)
qed

lemma eight: "(8::nat) = Suc (Suc (Suc (Suc (Suc (Suc (Suc (Suc 0)))))))"
  by simp

lemma bytesmap_8:
  "bytesmap f 8 x =
     f (x mod 256) + 256 * (f (x div 256 mod 256) + 256 * (f (x div 256 div 256 mod 256) +
     256 * (f (x div 256 div 256 div 256 mod 256) +
     256 * (f (x div 256 div 256 div 256 div 256 mod 256) +
     256 * (f (x div 256 div 256 div 256 div 256 div 256 mod 256) +
     256 * (f (x div 256 div 256 div 256 div 256 div 256 div 256 mod 256) +
     256 * f (x div 256 div 256 div 256 div 256 div 256 div 256 div 256 mod 256)))))))"
  by (simp only: eight bytesmap.simps mult_0_right add_0_right)

lemma bytesum_8:
  "bytesum f 8 x =
     f (x mod 256) + (f (x div 256 mod 256) + (f (x div 256 div 256 mod 256) +
     (f (x div 256 div 256 div 256 mod 256) +
     (f (x div 256 div 256 div 256 div 256 mod 256) +
     (f (x div 256 div 256 div 256 div 256 div 256 mod 256) +
     (f (x div 256 div 256 div 256 div 256 div 256 div 256 mod 256) +
     f (x div 256 div 256 div 256 div 256 div 256 div 256 div 256 mod 256)))))))"
  by (simp only: eight bytesum.simps add_0_right)

lemma pcn_bytesum: "x < 256 ^ n \<Longrightarrow> pcn x = bytesum pcn n x"
proof (induction n arbitrary: x)
  case 0
  then show ?case by simp
next
  case (Suc n)
  have y: "x div 256 < 256 ^ n"
    using Suc.prems by (rule div_less_256)
  have "pcn (x mod 256 + 256 * (x div 256)) = pcn (x mod 256) + pcn (x div 256)"
    by (rule pcn_byte) simp
  then have "pcn x = pcn (x mod 256) + pcn (x div 256)"
    by simp
  then show ?case
    by (simp only: Suc.IH [OF y] bytesum.simps)
qed

lemma top_byte_sum:
  fixes p0 p1 p2 p3 p4 p5 p6 p7 :: nat
  assumes "p0 \<le> 8" "p1 \<le> 8" "p2 \<le> 8" "p3 \<le> 8" "p4 \<le> 8" "p5 \<le> 8" "p6 \<le> 8" "p7 \<le> 8"
  shows "((p0 + 256 * (p1 + 256 * (p2 + 256 * (p3 + 256 * (p4 + 256 * (p5 + 256 * (p6 + 256 * p7)))))))
          * 72340172838076673) mod 2 ^ 64 div 2 ^ 56 =
         p0 + (p1 + (p2 + (p3 + (p4 + (p5 + (p6 + p7))))))"
proof -
  define S where "S = p0 + (p1 + (p2 + (p3 + (p4 + (p5 + (p6 + p7))))))"
  define L where "L = p0 + 256 * ((p0 + p1) + 256 * ((p0 + p1 + p2) + 256 * ((p0 + p1 + p2 + p3)
      + 256 * ((p0 + p1 + p2 + p3 + p4) + 256 * ((p0 + p1 + p2 + p3 + p4 + p5)
      + 256 * (p0 + p1 + p2 + p3 + p4 + p5 + p6))))))"
  define H where "H = (p1 + p2 + p3 + p4 + p5 + p6 + p7) + 256 * ((p2 + p3 + p4 + p5 + p6 + p7)
      + 256 * ((p3 + p4 + p5 + p6 + p7) + 256 * ((p4 + p5 + p6 + p7) + 256 * ((p5 + p6 + p7)
      + 256 * ((p6 + p7) + 256 * p7)))))"
  have eq: "(p0 + 256 * (p1 + 256 * (p2 + 256 * (p3 + 256 * (p4 + 256 * (p5 + 256 * (p6 + 256 * p7)))))))
          * 72340172838076673 = (L + 2 ^ 56 * S) + 2 ^ 64 * H"
    by (simp add: S_def L_def H_def)
  have L: "L < 2 ^ 56"
    using assms by (simp add: L_def)
  have S: "S \<le> 64"
    using assms by (simp add: S_def)
  have "2 ^ 56 * S \<le> 2 ^ 56 * (64::nat)"
    using S by (rule mult_le_mono2)
  with L have lt: "L + 2 ^ 56 * S < 2 ^ 64"
    by simp
  have "((L + 2 ^ 56 * S) + 2 ^ 64 * H) mod 2 ^ 64 = (L + 2 ^ 56 * S) mod 2 ^ 64"
    by (rule mod_mult_self2)
  also have "\<dots> = L + 2 ^ 56 * S"
    using lt by (rule mod_less)
  finally have m: "((L + 2 ^ 56 * S) + 2 ^ 64 * H) mod 2 ^ 64 = L + 2 ^ 56 * S" .
  have "(L + 2 ^ 56 * S) div 2 ^ 56 = S + L div 2 ^ 56"
    by (rule div_mult_self2) simp
  also have "L div 2 ^ 56 = 0"
    using L by (rule div_less)
  finally have d: "(L + 2 ^ 56 * S) div 2 ^ 56 = S"
    by simp
  have "((p0 + 256 * (p1 + 256 * (p2 + 256 * (p3 + 256 * (p4 + 256 * (p5 + 256 * (p6 + 256 * p7)))))))
          * 72340172838076673) mod 2 ^ 64 div 2 ^ 56 = S"
    by (simp only: eq m d)
  then show ?thesis
    by (simp only: S_def)
qed

lemma swar_top_byte:
  assumes "x < 256 ^ 8"
  shows "(bytesmap pcn 8 x * 72340172838076673) mod 2 ^ 64 div 2 ^ 56 = pcn x"
proof -
  have le: "\<And>y. pcn (y mod 256) \<le> 8"
    by (rule byte_facts(6)) simp
  show ?thesis
    unfolding pcn_bytesum [OF assms] bytesmap_8 bytesum_8
    by (rule top_byte_sum) (rule le)+
qed

lemma rep_numeral: "rep c (numeral k) = c + 256 * rep c (pred_numeral k)"
  by (simp only: numeral_eq_Suc [of k] rep.simps)

lemma unat_B1: "unat B1 = rep 85 8"
  unfolding B1_def by (simp add: rep_numeral)

lemma unat_B2: "unat B2 = rep 51 8"
  unfolding B2_def by (simp add: rep_numeral)

lemma unat_B3: "unat B3 = rep 15 8"
  unfolding B3_def by (simp add: rep_numeral)

lemma unat_B4: "unat B4 = 72340172838076673"
  unfolding B4_def by simp

lemma B1_mask: "B1 AND mask 63 = B1"
  unfolding B1_def by (simp add: mask_eq_exp_minus_1)

lemma B2_mask: "B2 AND mask 62 = B2"
  unfolding B2_def by (simp add: mask_eq_exp_minus_1)

lemma signed_drop_bit_and:
  fixes v M :: "64 word"
  assumes M: "M AND mask (64 - k) = M"
  shows "signed_drop_bit k v AND M = drop_bit k v AND M"
proof (rule bit_word_eqI)
  fix n assume "n < LENGTH(64)"
  show "bit (signed_drop_bit k v AND M) n = bit (drop_bit k v AND M) n"
  proof (cases "bit M n")
    case False
    then show ?thesis by (simp add: bit_and_iff)
  next
    case True
    then have "bit (M AND mask (64 - k)) n" by (simp only: M)
    then have "n < 64 - k" by (simp add: bit_and_iff bit_mask_iff)
    then show ?thesis
      by (simp add: bit_and_iff bit_signed_drop_bit_iff bit_drop_bit_eq)
  qed
qed

lemma signed_drop_bit_nonneg:
  fixes v :: "64 word"
  assumes "unat v < 2 ^ 63"
  shows "signed_drop_bit k v = drop_bit k v"
proof -
  have nb: "\<not> bit v 63"
  proof
    assume "bit v 63"
    then have "bit (unat v) 63" by (simp add: bit_unsigned_iff)
    moreover have "take_bit 63 (unat v) = unat v"
      using assms by (simp only: take_bit_nat_eq_self)
    ultimately have "bit (take_bit 63 (unat v)) 63" by (simp only:)
    then show False by (simp add: bit_take_bit_iff)
  qed
  show ?thesis
  proof (rule bit_word_eqI)
    fix n assume n: "n < LENGTH(64)"
    show "bit (signed_drop_bit k v) n = bit (drop_bit k v) n"
    proof (cases "64 - k \<le> n")
      case True
      with n have "64 \<le> k + n" by simp
      then have "\<not> bit v (k + n)" using bit_imp_le_length [of v "k + n"] by auto
      with True n nb show ?thesis
        by (simp add: bit_signed_drop_bit_iff bit_drop_bit_eq)
    next
      case False
      then show ?thesis
        by (simp add: bit_signed_drop_bit_iff bit_drop_bit_eq)
    qed
  qed
qed

lemma unat_lt_256_8: "unat (v :: 64 word) < 256 ^ 8"
  using unat_lt_2p64 [of v] by simp

lemma unat_drop:
  "unat (drop_bit k (v :: 'a::len word)) = unat v div 2 ^ k"
proof -
  have "unat (drop_bit k v) = drop_bit k (unat v)"
    by (rule unat_drop_bit_eq)
  also have "\<dots> = unat v div 2 ^ k"
    by (rule drop_bit_eq_div)
  finally show ?thesis .
qed

lemma unat_CBITSa: "unat (CBITSa v) = SA (rep 85 8) (unat v)"
proof -
  let ?y = "drop_bit 1 v AND B1"
  have s: "signed_drop_bit 1 v AND B1 = ?y"
    by (rule signed_drop_bit_and) (simp add: B1_mask)
  have uy: "unat ?y = (unat v div 2) AND rep 85 8"
    by (simp only: unsigned_and_eq unat_drop unat_B1 power_one_right)
  have "unat ?y \<le> unat v div 2"
    unfolding uy by (rule and_nat_le1)
  then have "unat ?y \<le> unat v"
    by simp
  then have "?y \<le> v"
    by (simp only: word_le_nat_alt)
  then have "unat (v - ?y) = unat v - unat ?y"
    by (rule unat_sub)
  then show ?thesis
    by (simp only: CBITSa_def s uy SA_def)
qed

lemma unat_CBITSb:
  assumes "SB (rep 51 8) (unat v) < 2 ^ 64"
  shows "unat (CBITSb v) = SB (rep 51 8) (unat v)"
proof -
  let ?a = "v AND B2" and ?y = "drop_bit 2 v AND B2"
  have s: "signed_drop_bit 2 v AND B2 = ?y"
    by (rule signed_drop_bit_and) (simp add: B2_mask)
  have ua: "unat ?a = unat v AND rep 51 8"
    by (simp only: unsigned_and_eq unat_B2)
  have "unat ?y = (unat v div 2 ^ 2) AND rep 51 8"
    by (simp only: unsigned_and_eq unat_drop unat_B2)
  then have uy: "unat ?y = (unat v div 4) AND rep 51 8"
    by simp
  have "unat ?a + unat ?y < 2 ^ LENGTH(64)"
    using assms by (simp only: ua uy SB_def) simp
  then have "unat (?a + ?y) = unat ?a + unat ?y"
    by (simp only: unat_add_lem)
  then show ?thesis
    by (simp only: CBITSb_def s ua uy SB_def)
qed

lemma unat_CBITSc:
  assumes "unat v < 2 ^ 63"
  shows "unat (CBITSc v) = SC (rep 15 8) (unat v)"
proof -
  have s: "signed_drop_bit 4 v = drop_bit 4 v"
    using assms by (rule signed_drop_bit_nonneg)
  have "unat (drop_bit 4 v) = unat v div 2 ^ 4"
    by (rule unat_drop)
  then have ud: "unat (drop_bit 4 v) = unat v div 16"
    by simp
  have "unat v + unat v div 16 < 2 ^ 64"
    using assms by simp
  then have "unat v + unat (drop_bit 4 v) < 2 ^ LENGTH(64)"
    by (simp only: ud) simp
  then have "unat (v + drop_bit 4 v) = unat v + unat (drop_bit 4 v)"
    by (simp only: unat_add_lem)
  then show ?thesis
    by (simp only: CBITSc_def s unsigned_and_eq unat_B3 ud SC_def)
qed

lemma nib_ok_bound: "nib_ok (Suc n) z \<Longrightarrow> z < 256 ^ Suc n \<Longrightarrow> z < 80 * 256 ^ n"
proof (induction n arbitrary: z)
  case 0
  then have "z div 16 \<le> 4" by simp
  then have "z div 16 < 5" by simp
  then have "z < 5 * 16" by (simp only: div_less_iff_less_mult [of 16 z 5] zero_less_numeral)
  then show ?case by simp
next
  case (Suc n)
  have y: "z div 256 < 256 ^ Suc n"
    using Suc.prems(2) by (rule div_less_256)
  from Suc.prems(1) have "nib_ok (Suc n) (z div 256)"
    by simp
  then have "z div 256 < 80 * 256 ^ n"
    using y by (rule Suc.IH)
  then have "z < 80 * 256 ^ n * 256"
    by (simp only: div_less_iff_less_mult [of 256 z] zero_less_numeral)
  then show ?case by simp
qed

lemma unat_CBITS: "unat (CBITS v) = bytesmap pcn 8 (unat v)"
proof -
  let ?x = "unat v"
  have x: "?x < 256 ^ 8" by (rule unat_lt_256_8)
  let ?a = "SA (rep 85 8) ?x"
  let ?b = "SB (rep 51 8) ?a"
  have b64: "?b < 2 ^ 64"
    using swar_nib_ok(2) [OF x] by simp
  have ub: "unat (CBITSb (CBITSa v)) = ?b"
    using b64 by (simp only: unat_CBITSb unat_CBITSa)
  have "nib_ok (Suc 7) ?b" and "?b < 256 ^ Suc 7"
    using swar_nib_ok(1,2) [OF x] by simp_all
  then have "?b < 80 * 256 ^ 7"
    by (rule nib_ok_bound)
  then have "?b < 2 ^ 63"
    by simp
  then have "unat (CBITSb (CBITSa v)) < 2 ^ 63"
    by (simp only: ub)
  then have "unat (CBITSc (CBITSb (CBITSa v))) = SC (rep 15 8) ?b"
    by (simp only: unat_CBITSc ub)
  then show ?thesis
    by (simp only: CBITS_def swar_bytes [OF x])
qed

lemma unat_CBITS2: "unat (CBITS2 w) = (unat w * 72340172838076673) mod 2 ^ 64 div 2 ^ 56"
proof -
  have "S1 = 56" by (simp add: S1_def)
  then have "unat (CBITS2 w) = unat (w * B4) div 2 ^ 56"
    by (simp only: CBITS2_def unat_drop)
  also have "unat (w * B4) = unat w * unat B4 mod 2 ^ LENGTH(64)"
    by (rule unat_word_ariths)
  finally show ?thesis
    by (simp only: unat_B4) simp
qed

lemma sidewaysaddition_kernel_eq: "sidewaysaddition_kernel c = of_nat (pop_count c)"
proof -
  have "unat (sidewaysaddition_kernel c) = pcn (unat c)"
    by (simp only: sidewaysaddition_kernel_def unat_CBITS2 unat_CBITS
        swar_top_byte [OF unat_lt_256_8])
  then have "word_of_nat (unat (sidewaysaddition_kernel c)) = (word_of_nat (pop_count c) :: 64 word)"
    by (simp only: pop_count_pcn)
  then show ?thesis
    by simp
qed

lemma lowest_bit_nat:
  "0 < x \<Longrightarrow> \<exists>i. bit x i \<and> (\<forall>j<i. \<not> bit x j) \<and> x AND (x - 1) = unset_bit i (x::nat)"
proof (induction x rule: less_induct)
  case (less x)
  show ?case
  proof (cases "even x")
    case False
    then obtain k where x: "x = 2 * k + 1"
      by (auto elim: oddE)
    have "(2 * k + 1) AND (2 * k) = 2 * k"
      by (subst and_nat_rec) simp
    then have "x AND (x - 1) = unset_bit 0 x"
      by (simp add: x unset_bit_0)
    moreover have "bit x 0"
      using False by (simp add: bit_0)
    ultimately show ?thesis
      by (intro exI [of _ 0]) simp
  next
    case True
    with less.prems obtain k where x: "x = 2 * k" and pos: "0 < k"
      by (auto elim: evenE)
    have kx: "k < x"
      using pos by (simp add: x)
    from less.IH [OF kx pos] obtain i where i: "bit k i" "\<forall>j<i. \<not> bit k j"
      and u: "k AND (k - Suc 0) = unset_bit i k"
      by auto
    have d: "(2 * k - Suc 0) div 2 = k - Suc 0"
      using pos by arith
    have "(2 * k) AND (2 * k - 1) = 2 * (k AND (k - 1))"
      by (subst and_nat_rec) (simp add: d)
    also have "\<dots> = unset_bit (Suc i) (2 * k)"
      by (simp add: u unset_bit_Suc)
    finally have a: "x AND (x - 1) = unset_bit (Suc i) x"
      by (simp only: x)
    have b: "bit x (Suc i)"
      using i(1) by (simp add: x bit_Suc)
    have c: "\<forall>j<Suc i. \<not> bit x j"
    proof (intro allI impI)
      fix j assume "j < Suc i"
      show "\<not> bit x j"
      proof (cases j)
        case 0
        then show ?thesis using True by (simp add: bit_0)
      next
        case (Suc j')
        with \<open>j < Suc i\<close> i(2) have "\<not> bit k j'" by simp
        then show ?thesis by (simp add: Suc x bit_Suc)
      qed
    qed
    from a b c show ?thesis by blast
  qed
qed

lemma lowest_bit_word:
  fixes c :: "'a::len word"
  assumes "c \<noteq> 0"
  shows "\<exists>i. bit c i \<and> (\<forall>j<i. \<not> bit c j) \<and> c AND (c - 1) = unset_bit i c"
proof -
  have "0 < unat c"
    using assms by (simp add: unat_gt_0)
  from lowest_bit_nat [OF this] obtain i where i: "bit (unat c) i" "\<forall>j<i. \<not> bit (unat c) j"
    and u: "unat c AND (unat c - 1) = unset_bit i (unat c)"
    by blast
  have un: "unat (c AND (c - 1)) = unset_bit i (unat c)"
    by (simp only: unsigned_and_eq unat_minus_one [OF assms] u)
  have "c AND (c - 1) = unset_bit i c"
  proof (rule bit_word_eqI)
    fix n assume "n < LENGTH('a)"
    have "bit (c AND (c - 1)) n = bit (unat (c AND (c - 1))) n"
      by (simp add: bit_unsigned_iff)
    also have "\<dots> = (bit (unat c) n \<and> n \<noteq> i)"
      by (simp only: un bit_unset_bit_iff) auto
    also have "\<dots> = bit (unset_bit i c) n"
      by (auto simp add: bit_unset_bit_iff bit_unsigned_iff)
    finally show "bit (c AND (c - 1)) n = bit (unset_bit i c) n" .
  qed
  moreover have "bit c i"
    using i(1) by (simp add: bit_unsigned_iff)
  moreover have "\<forall>j<i. \<not> bit c j"
    using i(2) by (simp add: bit_unsigned_iff)
  ultimately show ?thesis by blast
qed

lemma pcn_eq_0: "pcn x = 0 \<longleftrightarrow> x = 0"
proof (induction x rule: less_induct)
  case (less x)
  show ?case
  proof (cases "x = 0")
    case True
    then show ?thesis by simp
  next
    case False
    then have "x div 2 < x" by simp
    from less.IH [OF this] have ih: "pcn (x div 2) = 0 \<longleftrightarrow> x div 2 = 0" .
    have "pcn x = x mod 2 + pcn (x div 2)" by (rule pcn_rec)
    then have "pcn x = 0 \<longleftrightarrow> x mod 2 = 0 \<and> x div 2 = 0"
      by (simp add: ih)
    also have "\<dots> \<longleftrightarrow> x = 0"
      by presburger
    finally show ?thesis .
  qed
qed

lemma pop_count_eq_0: "pop_count w = 0 \<longleftrightarrow> w = 0"
  by (simp add: pop_count_pcn pcn_eq_0 unat_eq_0)

lemma clear_lowest_zero: "(0 :: 'a::len word) AND (0 - 1) = 0"
  by simp

lemma pop_count_funpow:
  "pop_count (((\<lambda>c. c AND (c - 1)) ^^ k) (chunk :: 'a::len word)) = pop_count chunk - k"
proof (induction k)
  case 0
  show ?case by simp
next
  case (Suc k)
  let ?y = "((\<lambda>c. c AND (c - 1)) ^^ k) chunk"
  show ?case
  proof (cases "?y = 0")
    case True
    have "pop_count ?y = 0"
      using True by (simp only: pop_count_eq_0)
    then have "pop_count chunk - k = 0"
      by (simp only: Suc.IH)
    with True show ?thesis
      by (simp add: pop_count_eq_0)
  next
    case False
    from pop_count_clear_lowest [OF False] have "pop_count (?y AND (?y - 1)) = pop_count ?y - 1"
      by simp
    then show ?thesis
      by (simp add: Suc.IH)
  qed
qed

lemma kernighan_iterations:
  "(((\<lambda>c. c AND (c - 1)) ^^ k) (chunk :: 'a::len word) \<noteq> 0) = (k < pop_count chunk)"
proof -
  let ?y = "((\<lambda>c. c AND (c - 1)) ^^ k) chunk"
  have a: "pop_count ?y = pop_count chunk - k"
    by (rule pop_count_funpow)
  have "(?y = 0) = (pop_count ?y = 0)"
    by (simp only: pop_count_eq_0)
  also have "\<dots> = (pop_count chunk \<le> k)"
    unfolding a by simp
  finally show ?thesis
    by (simp add: not_le)
qed

lemma kernighan_step_funpow:
  "(kernighan_step ^^ k) chunk = ((\<lambda>c. c AND (c - 1)) ^^ k) chunk"
proof -
  have "kernighan_step = (\<lambda>c. c AND (c - 1))"
    by (rule ext) (simp add: kernighan_step_def)
  then show ?thesis
    by simp
qed

lemma kernighan_loop_unroll:
  "k \<le> pop_count chunk \<Longrightarrow>
   kernighan_loop chunk tot n = kernighan_loop ((kernighan_step ^^ k) chunk) (tot + of_nat k) (n + k)"
  by (simp only: kernighan_loop_eq kernighan_step_funpow pop_count_funpow)
    (simp add: add.assoc flip: of_nat_add)

lemma bytesum_sum_list:
  "bytesum f n x = (\<Sum>k\<leftarrow>[0..<n]. f ((x div 256 ^ k) mod 256))"
proof (induction n arbitrary: x)
  case 0
  show ?case by simp
next
  case (Suc n)
  have upt: "[0..<Suc n] = 0 # map Suc [0..<n]"
    by (simp add: upt_conv_Cons map_Suc_upt del: upt_Suc)
  have d: "\<And>k. x div 256 div 256 ^ k = x div 256 ^ Suc k"
    by (simp add: div_mult2_eq)
  show ?case
    unfolding upt by (simp add: Suc.IH comp_def d del: upt_Suc power_Suc)
qed

lemma unat_byte_of:
  "unat (ucast (drop_bit (8 * k) (w :: 'a::len word)) :: uchar) = (unat w div 256 ^ k) mod 256"
proof -
  have "unat (ucast (drop_bit (8 * k) w) :: uchar) = take_bit 8 (unat (drop_bit (8 * k) w))"
    by (simp add: unsigned_ucast_eq)
  also have "\<dots> = (unat w div 2 ^ (8 * k)) mod 2 ^ 8"
    by (simp only: unat_drop take_bit_eq_mod)
  also have "(2::nat) ^ (8 * k) = 256 ^ k"
    by (simp add: power_mult)
  finally show ?thesis by simp
qed

lemma pop_count_bytes:
  assumes "unat (w :: 'a::len word) < 256 ^ n"
  shows "pop_count w = (\<Sum>k\<leftarrow>[0..<n]. pop_count (ucast (drop_bit (8 * k) w) :: uchar))"
proof -
  have "pop_count w = bytesum pcn n (unat w)"
    by (simp only: pop_count_pcn pcn_bytesum [OF assms])
  also have "\<dots> = (\<Sum>k\<leftarrow>[0..<n]. pcn ((unat w div 256 ^ k) mod 256))"
    by (rule bytesum_sum_list)
  finally show ?thesis
    by (simp only: pop_count_pcn unat_byte_of)
qed

lemma readable_mem_of_bytes: "readable (mem_of_bytes a bs) a (length bs)"
  by (simp add: readable_def mem_of_bytes_def)

lemma buffer_bits_mem_of_bytes:
  "buffer_bits (mem_of_bytes a bs) a (length bs) = (\<Sum>b\<leftarrow>bs. pop_count b)"
proof -
  have "map (\<lambda>k. pop_count (the (mem_of_bytes a bs (a + k)))) [0..<length bs] =
        map (\<lambda>k. pop_count (bs ! k)) [0..<length bs]"
    by (rule map_cong) (simp_all add: mem_of_bytes_def)
  also have "\<dots> = map pop_count (map (\<lambda>k. bs ! k) [0..<length bs])"
    by (simp only: map_map comp_def)
  also have "map (\<lambda>k. bs ! k) [0..<length bs] = bs"
    by (rule map_nth)
  finally show ?thesis
    by (simp only: buffer_bits_def)
qed

lemma count_bits_int_eq: "count_bits_int number = Some (of_nat (pop_count number))"
proof -
  let ?bs = "bytes_of_int number"
  have len: "length ?bs = 4"
    by (simp add: bytes_of_int_def)
  have u4: "unat (4 :: size_t) = length ?bs"
    by (simp add: len)
  have "unat number < 2 ^ 32"
    using unsigned_less [of number, where 'a = nat] by simp
  then have "unat number < 256 ^ 4"
    by simp
  from pop_count_bytes [OF this]
  have pc: "pop_count number = (\<Sum>b\<leftarrow>?bs. pop_count b)"
    by (simp only: bytes_of_int_def map_map comp_def)
  have "readable (mem_of_bytes 0 ?bs) 0 (unat (4 :: size_t))"
    unfolding u4 by (rule readable_mem_of_bytes)
  from count_bits_naive_eq [OF this] show ?thesis
    unfolding count_bits_int_def u4 by (simp only: buffer_bits_mem_of_bytes pc)
qed

lemma ucast_of_nat_small:
  assumes "n < 2 ^ 32"
  shows "(ucast (word_of_nat n :: 64 word) :: 32 word) = word_of_nat n"
proof -
  have "unat (word_of_nat n :: 64 word) = n"
    using assms by (simp add: unat_of_nat)
  moreover have "(ucast (word_of_nat n :: 64 word) :: 32 word) = word_of_nat (unat (word_of_nat n :: 64 word))"
    by simp
  ultimately show ?thesis by (simp only:)
qed

lemma pop_count_of_nat_byte:
  assumes "i < 256"
  shows "pop_count (word_of_nat i :: c_int) = pop_count (word_of_nat i :: uchar)"
proof -
  have "unat (word_of_nat i :: c_int) = i" and "unat (word_of_nat i :: uchar) = i"
    using assms by (simp_all add: unat_of_nat)
  then show ?thesis
    by (simp only: pop_count_pcn)
qed

lemma init_lookup_table_loop_eq:
  assumes "\<forall>i\<in>set is. i < length tbl"
  shows "\<exists>t. init_lookup_table_loop is tbl = Some t \<and> length t = length tbl \<and>
           (\<forall>j<length tbl. t ! j =
              (if j \<in> set is then ucast (word_of_nat (pop_count (word_of_nat j :: c_int)) :: long)
               else tbl ! j))"
  using assms
proof (induction "is" arbitrary: tbl)
  case Nil
  show ?case by simp
next
  case (Cons i "is")
  let ?v = "\<lambda>j. ucast (word_of_nat (pop_count (word_of_nat j :: c_int)) :: long) :: c_int"
  let ?tbl = "tbl[i := ?v i]"
  from Cons.prems have i: "i < length tbl" and rest: "\<forall>i\<in>set is. i < length ?tbl"
    by simp_all
  from Cons.IH [OF rest] obtain t where t: "init_lookup_table_loop is ?tbl = Some t"
    and len: "length t = length ?tbl"
    and ent: "\<forall>j<length ?tbl. t ! j = (if j \<in> set is then ?v j else ?tbl ! j)"
    by blast
  have "init_lookup_table_loop (i # is) tbl = Some t"
    using i by (simp add: count_bits_int_eq t)
  moreover have "length t = length tbl"
    using len by simp
  moreover have "\<forall>j<length tbl. t ! j = (if j \<in> set (i # is) then ?v j else tbl ! j)"
  proof (intro allI impI)
    fix j assume j: "j < length tbl"
    then have "t ! j = (if j \<in> set is then ?v j else ?tbl ! j)"
      using ent by simp
    then show "t ! j = (if j \<in> set (i # is) then ?v j else tbl ! j)"
      using j by (cases "j = i") simp_all
  qed
  ultimately show ?case by blast
qed

lemma init_lookup_table_ok:
  assumes "length tbl = 256"
  shows "\<exists>t. init_lookup_table tbl = Some t \<and> lookup_table_ok t"
proof -
  have "\<forall>i\<in>set [0..<256]. i < length tbl"
    using assms by simp
  from init_lookup_table_loop_eq [OF this] obtain t
    where t: "init_lookup_table_loop [0..<256] tbl = Some t"
    and len: "length t = length tbl"
    and ent: "\<forall>j<length tbl. t ! j =
       (if j \<in> set [0..<256] then ucast (word_of_nat (pop_count (word_of_nat j :: c_int)) :: long)
        else tbl ! j)"
    by blast
  have "\<forall>i<256. t ! i = word_of_nat (pop_count (word_of_nat i :: uchar))"
  proof (intro allI impI)
    fix i :: nat assume i: "i < 256"
    have "pop_count (word_of_nat i :: uchar) \<le> 8"
      using pop_count_le [of "word_of_nat i :: uchar"] by simp
    then have small: "pop_count (word_of_nat i :: uchar) < 2 ^ 32"
      by simp
    from i ent assms have "t ! i = ucast (word_of_nat (pop_count (word_of_nat i :: c_int)) :: long)"
      by simp
    then show "t ! i = word_of_nat (pop_count (word_of_nat i :: uchar))"
      by (simp only: pop_count_of_nat_byte [OF i] ucast_of_nat_small [OF small])
  qed
  with t len assms show ?thesis
    by (simp add: init_lookup_table_def lookup_table_ok_def)
qed

lemma table_kernel_loop_eq:
  assumes "lookup_table_ok t"
  shows "table_kernel_loop t bs tot = Some (tot + (\<Sum>b\<leftarrow>bs. word_of_nat (pop_count b)))"
proof (induction bs arbitrary: tot)
  case Nil
  show ?case by simp
next
  case (Cons b bs)
  have b: "unat b < 256"
    using unsigned_less [of b, where 'a = nat] by simp
  from assms have len: "length t = 256"
    and ent: "t ! unat b = word_of_nat (pop_count (word_of_nat (unat b) :: uchar))"
    using b by (simp_all add: lookup_table_ok_def)
  have "pop_count b \<le> 8"
    using pop_count_le [of b] by simp
  then have small: "pop_count b < 2 ^ 31"
    by simp
  have "(scast (t ! unat b) :: long) = word_of_nat (pop_count b)"
    unfolding ent by (simp add: scast_of_nat_small [OF small])
  then show ?case
    using b by (simp add: len Cons.IH add.assoc)
qed

lemma table_kernel_eq:
  assumes "lookup_table_ok t"
  shows "table_kernel t chunk = Some (word_of_nat (pop_count chunk))"
proof -
  have "unat chunk < 256 ^ 8"
    by (rule unat_lt_256_8)
  from pop_count_bytes [OF this]
  have "pop_count chunk = (\<Sum>b\<leftarrow>bytes_of_chunk chunk. pop_count b)"
    by (simp only: bytes_of_chunk_def chunk_size_def map_map comp_def)
  then have "(word_of_nat (pop_count chunk) :: long) =
             (\<Sum>b\<leftarrow>bytes_of_chunk chunk. word_of_nat (pop_count b))"
    by (simp only: of_nat_sum_list)
  then show ?thesis
    by (simp add: table_kernel_def table_kernel_loop_eq [OF assms])
qed

lemma popcnt_chunk_at: "popcnt (chunk_at m p) = of_nat (buffer_bits m p 8)"
  by (simp only: popcnt_def pop_count_chunk_at)

lemma asm_popcnt_loop_eq:
  assumes "unat ecx = Suc k" and "readable m p (8 * Suc k)"
  shows "asm_popcnt_loop m p tot ecx = Some (tot + of_nat (buffer_bits m p (8 * Suc k)))"
  using assms
proof (induction k arbitrary: p tot ecx)
  case 0
  from "0.prems"(2) have rd: "readable m p 8" by simp
  have "unat (ecx - 1) = 0"
    using "0.prems"(1) by (simp add: unat_minus_one unat_eq_0 [symmetric])
  then have e: "ecx - 1 = 0"
    by (simp only: unat_eq_0)
  show ?case
    by (subst asm_popcnt_loop.simps) (simp add: read_chunk_eq [OF rd] e popcnt_chunk_at)
next
  case (Suc k)
  have split: "8 * Suc (Suc k) = 8 + 8 * Suc k"
    by simp
  from Suc.prems(2) have rd: "readable m p 8" and rest: "readable m (p + 8) (8 * Suc k)"
    unfolding split by (simp_all only: readable_add)
  have nz: "ecx \<noteq> 0"
    using Suc.prems(1) by (auto simp add: unat_eq_0 [symmetric])
  have u: "unat (ecx - 1) = Suc k"
    using Suc.prems(1) by (simp add: unat_minus_one [OF nz])
  then have e: "ecx - 1 \<noteq> 0"
    by (auto simp add: unat_eq_0 [symmetric])
  have "asm_popcnt_loop m p tot ecx =
        asm_popcnt_loop m (p + chunk_size) (tot + popcnt (chunk_at m p)) (ecx - 1)"
    by (subst asm_popcnt_loop.simps) (use e in \<open>simp add: read_chunk_eq [OF rd]\<close>)
  also have "\<dots> = Some (tot + popcnt (chunk_at m p) + of_nat (buffer_bits m (p + 8) (8 * Suc k)))"
    unfolding chunk_size_def using u rest by (rule Suc.IH)
  also have "tot + popcnt (chunk_at m p) + of_nat (buffer_bits m (p + 8) (8 * Suc k)) =
             tot + of_nat (buffer_bits m p (8 + 8 * Suc k))"
    by (simp only: popcnt_chunk_at buffer_bits_add of_nat_add add.assoc)
  finally show ?case
    by (simp only: split)
qed

lemma count_bits_asm_chunked_eq:
  assumes "readable m p (8 * (unat n div 8))"
  shows "count_bits_asm_chunked m p n = Some (of_nat (buffer_bits m p (8 * (unat n div 8))))"
proof (cases "unat n div 8")
  case 0
  then have "unat (n div of_nat chunk_size) = 0"
    by (simp only: unat_div unat_chunk_size)
  then have "n div of_nat chunk_size = 0"
    by (simp only: unat_eq_0)
  with 0 show ?thesis
    by (simp add: count_bits_asm_chunked_def buffer_bits_def)
next
  case (Suc k)
  then have u: "unat (n div of_nat chunk_size) = Suc k"
    by (simp only: unat_div unat_chunk_size)
  then have nz: "n div of_nat chunk_size \<noteq> 0"
    by (auto simp add: unat_eq_0 [symmetric])
  from assms have rd: "readable m p (8 * Suc k)"
    by (simp only: Suc)
  from asm_popcnt_loop_eq [OF u rd, of 0] nz show ?thesis
    by (simp add: count_bits_asm_chunked_def Let_def Suc)
qed

lemma blocks_bits:
  "(\<Sum>k\<leftarrow>[0..<T]. buffer_bits m (p + k * B) B) = buffer_bits m p (T * B)"
proof (induction T)
  case 0
  show ?case by (simp add: buffer_bits_def)
next
  case (Suc T)
  have "(\<Sum>k\<leftarrow>[0..<Suc T]. buffer_bits m (p + k * B) B) =
        (\<Sum>k\<leftarrow>[0..<T]. buffer_bits m (p + k * B) B) + buffer_bits m (p + T * B) B"
    by simp
  also have "\<dots> = buffer_bits m p (T * B) + buffer_bits m (p + T * B) B"
    by (simp only: Suc.IH)
  also have "\<dots> = buffer_bits m p (T * B + B)"
    by (simp only: buffer_bits_add)
  also have "T * B + B = Suc T * B"
    by simp
  finally show ?case .
qed

lemma readable_block:
  assumes "readable m p (T * B + r)" and "k < T"
  shows "readable m (p + k * B) B"
proof -
  from assms(2) have "k * B + B \<le> T * B"
    using mult_le_mono1 [of "Suc k" T B] by simp
  then obtain d where "T * B + r = (k * B + B) + d"
    using le_Suc_ex [of "k * B + B" "T * B + r"] by auto
  with assms(1) have "readable m p ((k * B + B) + d)"
    by (simp only:)
  then have "readable m p (k * B + B)"
    by (simp only: readable_add)
  then show ?thesis
    by (simp only: readable_add)
qed

lemma omp_num_threads_bound:
  "omp_env_ok omp \<Longrightarrow> 0 < omp_num_threads omp \<and> omp_num_threads omp < 2 ^ 31"
  by (simp add: omp_env_ok_def)

lemma num_threads_eq: "omp_env_ok omp \<Longrightarrow> num_threads omp = int (omp_num_threads omp)"
  by (simp add: num_threads_def omp_env_ok_def)

text \<open>The locals of count_bits_asm as natural numbers, for a team of T threads.\<close>

lemma asm_locals:
  fixes n :: size_t
  assumes T: "0 < T" "T < 2 ^ 31"
  defines "B \<equiv> 8 * (unat n div 8 div T)"
  shows "unat (asm_bufsize_per_core (int T) n) = B"
    and "unat (asm_chunked_bufsize (int T) n) = T * B"
    and "unat (asm_leftover (int T) n) = unat n - T * B"
    and "T * B \<le> unat n"
    and "\<And>k. k < T \<Longrightarrow> unat (of_nat k * asm_bufsize_per_core (int T) n :: size_t) = k * B"
proof -
  let ?N = "unat n div 8"
  have n64: "unat n < 2 ^ 64" by (rule unat_lt_2p64)
  have uT: "unat (of_nat T :: size_t) = T"
    using T by (simp add: unat_of_nat)
  have c: "unat (n div of_nat chunk_size div of_nat T :: size_t) = ?N div T"
    by (simp only: unat_div unat_chunk_size uT)
  have le: "T * (?N div T) \<le> ?N"
    by simp
  then have "8 * (T * (?N div T)) \<le> 8 * ?N"
    by simp
  also have "8 * ?N \<le> unat n"
    by simp
  finally have TB: "T * B \<le> unat n"
    unfolding B_def by (simp only: mult.left_commute)
  then show "T * B \<le> unat n" .
  have Bn: "B \<le> unat n"
    using TB T(1) by (metis One_nat_def Suc_leI le_trans mult_le_mono1 nat_mult_1)
  have "unat (n div of_nat chunk_size div of_nat T :: size_t) * unat (of_nat chunk_size :: size_t)
        < 2 ^ LENGTH(64)"
    unfolding c unat_chunk_size using Bn n64 by (simp add: B_def mult.commute)
  then have "unat (n div of_nat chunk_size div of_nat T * of_nat chunk_size :: size_t) =
        unat (n div of_nat chunk_size div of_nat T :: size_t) * unat (of_nat chunk_size :: size_t)"
    by (simp only: unat_mult_lem)
  then show b: "unat (asm_bufsize_per_core (int T) n) = B"
    by (simp add: asm_bufsize_per_core_def Let_def c B_def unat_chunk_size)
  have mult: "\<And>k. k \<le> T \<Longrightarrow> unat (of_nat k * asm_bufsize_per_core (int T) n :: size_t) = k * B"
  proof -
    fix k assume k: "k \<le> T"
    then have uk: "unat (of_nat k :: size_t) = k"
      using T by (simp add: unat_of_nat)
    have "k * B \<le> T * B"
      using k by (rule mult_le_mono1)
    also note TB
    also note n64
    finally have "k * B < 2 ^ 64" .
    then have "unat (of_nat k :: size_t) * unat (asm_bufsize_per_core (int T) n) < 2 ^ LENGTH(64)"
      by (simp only: uk b) simp
    then have "unat (of_nat k * asm_bufsize_per_core (int T) n :: size_t) =
          unat (of_nat k :: size_t) * unat (asm_bufsize_per_core (int T) n)"
      by (simp only: unat_mult_lem)
    then show "unat (of_nat k * asm_bufsize_per_core (int T) n :: size_t) = k * B"
      by (simp only: uk b)
  qed
  from mult [of T] show cb: "unat (asm_chunked_bufsize (int T) n) = T * B"
    by (simp add: asm_chunked_bufsize_def)
  have "asm_chunked_bufsize (int T) n \<le> n"
    using TB by (simp only: word_le_nat_alt cb)
  then have "unat (n - asm_chunked_bufsize (int T) n) = unat n - unat (asm_chunked_bufsize (int T) n)"
    by (rule unat_sub)
  then show "unat (asm_leftover (int T) n) = unat n - T * B"
    by (simp only: asm_leftover_def cb)
  fix k assume "k < T"
  then have "k \<le> T" by simp
  then show "unat (of_nat k * asm_bufsize_per_core (int T) n :: size_t) = k * B"
    by (rule mult)
qed

lemma count_bits_asm_parts:
  assumes ok: "omp_env_ok omp" and rd: "readable m p (unat n)"
  defines "T \<equiv> omp_num_threads omp"
  defines "B \<equiv> 8 * (unat n div 8 div T)"
  shows "count_bits_asm omp m p n =
         Some (of_nat (buffer_bits m p (T * B)) + of_nat (buffer_bits m (p + T * B) (unat n - T * B)))"
proof -
  from ok have T: "0 < T" "T < 2 ^ 31"
    by (simp_all add: T_def omp_env_ok_def)
  have nt: "num_threads omp = int T"
    using ok by (simp add: num_threads_eq T_def)
  note loc = asm_locals [OF T, where n = n, folded B_def]
  let ?bpc = "asm_bufsize_per_core (int T) n"
  let ?body = "\<lambda>core tot.
      case count_bits_asm_chunked m (p + unat (of_nat core * ?bpc)) ?bpc of
        None \<Rightarrow> None
      | Some num_bits \<Rightarrow> Some (tot + num_bits)"
  let ?r = "\<lambda>core. of_nat (buffer_bits m (p + core * B) B) :: long"
  let ?team = "omp_schedule omp T"
  have B8: "8 * (B div 8) = B"
    by (simp add: B_def)
  have rdn: "readable m p (T * B + (unat n - T * B))"
    using rd loc(4) by simp
  have core: "?body k = (\<lambda>acc. Some (acc + ?r k))" if "k < T" for k
  proof -
    have "readable m (p + k * B) B"
      using rdn that by (rule readable_block)
    then have "readable m (p + k * B) (8 * (unat ?bpc div 8))"
      by (simp only: loc(1) B8)
    from count_bits_asm_chunked_eq [OF this] show ?thesis
      by (simp add: loc(5) [OF that] loc(1) B8)
  qed
  have thr: "\<forall>th\<in>set ?team. (\<lambda>(thread_id, cores). omp_for ?body cores 0) th =
      Some (\<Sum>k\<leftarrow>snd th. ?r k)"
  proof
    fix th assume th: "th \<in> set ?team"
    have "\<forall>k\<in>set (snd th). ?body k = (\<lambda>acc. Some (acc + ?r k))"
      using omp_schedule_set [OF ok th] core by blast
    from omp_for_eq [OF this, of 0] show
      "(\<lambda>(thread_id, cores). omp_for ?body cores 0) th = Some (\<Sum>k\<leftarrow>snd th. ?r k)"
      by (simp add: case_prod_unfold)
  qed
  have "omp_parallel_reduction (\<lambda>(thread_id, cores). omp_for ?body cores 0) ?team 0 =
      Some (\<Sum>k\<leftarrow>[0..<T]. ?r k)"
    unfolding omp_parallel_reduction_eq [OF thr]
    by (simp only: sum_list_team add_0_left
        sum_list_mset_cong [OF omp_schedule_iters [OF ok]])
  also have "(\<Sum>k\<leftarrow>[0..<T]. ?r k) = of_nat (buffer_bits m p (T * B))"
    by (simp only: of_nat_sum_list [symmetric] blocks_bits)
  finally have par: "omp_parallel_reduction (\<lambda>(thread_id, cores). omp_for ?body cores 0) ?team 0 =
      Some (of_nat (buffer_bits m p (T * B)))" .
  have tail: "readable m (p + unat (asm_chunked_bufsize (int T) n)) (unat (asm_leftover (int T) n))"
    using rdn by (simp only: loc(2,3) readable_add)
  show ?thesis
    unfolding count_bits_asm_def Let_def nt nat_int par add_leftover_eq [OF tail]
    by (simp only: loc(2,3))
qed

lemma count_bits_asm_eq:
  assumes ok: "omp_env_ok omp" and rd: "readable m p (unat n)"
  shows "count_bits_asm omp m p n = Some (of_nat (buffer_bits m p (unat n)))"
proof -
  let ?T = "omp_num_threads omp"
  let ?B = "8 * (unat n div 8 div ?T)"
  from ok have T: "0 < ?T" "?T < 2 ^ 31"
    by (simp_all add: omp_env_ok_def)
  have "?T * ?B \<le> unat n"
    by (rule asm_locals(4) [OF T])
  then have "unat n = ?T * ?B + (unat n - ?T * ?B)"
    by simp
  then have "buffer_bits m p (unat n) =
      buffer_bits m p (?T * ?B) + buffer_bits m (p + ?T * ?B) (unat n - ?T * ?B)"
    using buffer_bits_add [of m p "?T * ?B" "unat n - ?T * ?B"] by (simp only:)
  then show ?thesis
    by (simp only: count_bits_asm_parts [OF ok rd] of_nat_add)
qed

lemma sdiv_nonneg:
  assumes "0 \<le> a" and "0 < b"
  shows "(a :: int) sdiv b = a div b"
  using assms by (cases "a = 0") (simp_all add: signed_divide_int_eq_divide_int)

lemma concat_upt:
  assumes "\<forall>k<t. f k \<le> f (Suc k)"
  shows "concat (map (\<lambda>k. [f k..<f (Suc k)]) [0..<t]) = [f 0..<f t]"
  using assms
proof (induction t)
  case 0
  show ?case by simp
next
  case (Suc t)
  from Suc.prems have mono: "\<forall>k<t. f k \<le> f (Suc k)" and last: "f t \<le> f (Suc t)"
    by simp_all
  have le: "f 0 \<le> f t"
    using mono
  proof (induction t)
    case 0
    show ?case by simp
  next
    case (Suc t)
    then have "f 0 \<le> f t" and "f t \<le> f (Suc t)" by simp_all
    then show ?case by (rule le_trans)
  qed
  have "concat (map (\<lambda>k. [f k..<f (Suc k)]) [0..<Suc t]) = [f 0..<f t] @ [f t..<f (Suc t)]"
    by (simp add: Suc.IH [OF mono])
  also have "\<dots> = [f 0..<f (Suc t)]"
  proof -
    from last obtain d where d: "f (Suc t) = f t + d"
      using le_Suc_ex by blast
    have "[f 0..<f t + d] = [f 0..<f t] @ [f t..<f t + d]"
      using le by (rule upt_add_eq_append)
    then show ?thesis
      by (simp only: d)
  qed
  finally show ?case .
qed

lemma omp_static_bound_props:
  assumes "0 < t"
  shows "omp_static_bound t n 0 = 0" and "omp_static_bound t n t = n"
    and "omp_static_bound t n k \<le> omp_static_bound t n (Suc k)"
proof -
  show "omp_static_bound t n 0 = 0"
    by (simp add: omp_static_bound_def)
  have "n mod t < t"
    using assms by simp
  then have "min t (n mod t) = n mod t"
    by simp
  then show "omp_static_bound t n t = n"
    by (simp add: omp_static_bound_def)
  have "k * (n div t) \<le> Suc k * (n div t)"
    by simp
  moreover have "min k (n mod t) \<le> min (Suc k) (n mod t)"
    by simp
  ultimately show "omp_static_bound t n k \<le> omp_static_bound t n (Suc k)"
    unfolding omp_static_bound_def by (rule add_mono)
qed

lemma omp_static_ok:
  assumes "0 < t" and "t < 2 ^ 31"
  shows "omp_env_ok (omp_static t)"
proof -
  have fst: "map fst (omp_schedule (omp_static t) n) = [0..<t]" for n
    by (simp add: omp_static_def comp_def)
  have "concat (map snd (omp_schedule (omp_static t) n)) =
        concat (map (\<lambda>k. [omp_static_bound t n k..<omp_static_bound t n (Suc k)]) [0..<t])" for n
    by (simp add: omp_static_def comp_def)
  also have "\<dots> n = [omp_static_bound t n 0..<omp_static_bound t n t]" for n
    by (rule concat_upt) (simp add: omp_static_bound_props(3) [OF assms(1)])
  finally have snd: "concat (map snd (omp_schedule (omp_static t) n)) = [0..<n]" for n
    by (simp only: omp_static_bound_props(1,2) [OF assms(1)])
  have "omp_num_threads (omp_static t) = t"
    by (simp add: omp_static_def)
  with assms fst snd show ?thesis
    by (simp add: omp_env_ok_def)
qed

lemma count_bits_kernel_double_eq: "count_bits_kernel_double func = count_bits_kernel func"
proof (intro ext)
  fix omp m buffer bufsize
  have body: "(\<lambda>i thread_total.
                 case read_chunk m (buffer + i * double_chunk_size) of
                   None \<Rightarrow> None
                 | Some chunk \<Rightarrow>
                     (case func chunk of
                        None \<Rightarrow> None
                      | Some c \<Rightarrow> Some (thread_total + c))) =
              kernel_loop_body func m buffer"
    by (intro ext) (simp add: kernel_loop_body_def chunk_size_def double_chunk_size_def)
  show "count_bits_kernel_double func omp m buffer bufsize =
        count_bits_kernel func omp m buffer bufsize"
    unfolding count_bits_kernel_double_def Let_def body
    by (simp add: count_bits_kernel_def kernel_num_chunks_def kernel_chunked_bufsize_def
        kernel_leftover_def chunk_size_def double_chunk_size_def)
qed

lemma kernel2_thread_eq:
  assumes "numFunc1 + numFunc2 \<noteq> 0"
  shows "kernel2_thread func func2 numFunc1 numFunc2 omp m p th =
         omp_for (kernel_loop_body
           (if int (fst th) < int (omp_num_threads omp) sdiv (numFunc1 + numFunc2)
            then func else func2) m p) (snd th) 0"
  using assms by (cases th) (simp add: kernel2_thread_def Let_def)

lemma count_bits_kernel2_parts:
  assumes ok: "omp_env_ok omp" and rd: "readable m p (unat n)"
    and nz: "numFunc1 + numFunc2 \<noteq> 0"
  shows "count_bits_kernel2 (\<lambda>c. Some (gA c)) (\<lambda>c. Some (gB c)) numFunc1 numFunc2 omp m p n =
         Some ((\<Sum>th\<leftarrow>omp_schedule omp (unat n div 8). \<Sum>i\<leftarrow>snd th.
                  (if int (fst th) < int (omp_num_threads omp) sdiv (numFunc1 + numFunc2)
                   then gA else gB) (chunk_at m (p + i * 8))) +
               of_nat (buffer_bits m (p + 8 * (unat n div 8)) (unat n mod 8)))"
proof -
  let ?N = "unat n div 8"
  let ?team = "omp_schedule omp ?N"
  let ?sel = "\<lambda>th. if int (fst th) < int (omp_num_threads omp) sdiv (numFunc1 + numFunc2)
                   then gA else gB"
  let ?r = "\<lambda>th. \<Sum>i\<leftarrow>snd th. ?sel th (chunk_at m (p + i * 8))"
  have thr: "\<forall>th\<in>set ?team.
      kernel2_thread (\<lambda>c. Some (gA c)) (\<lambda>c. Some (gB c)) numFunc1 numFunc2 omp m p th =
      Some (?r th)"
  proof
    fix th assume th: "th \<in> set ?team"
    have rdc: "\<forall>i\<in>set (snd th). readable m (p + i * 8) 8"
      using omp_schedule_set [OF ok th] readable_chunk [OF rd] by blast
    have "(if int (fst th) < int (omp_num_threads omp) sdiv (numFunc1 + numFunc2)
           then (\<lambda>c. Some (gA c)) else (\<lambda>c. Some (gB c))) = (\<lambda>c. Some (?sel th c))"
      by simp
    then have "kernel2_thread (\<lambda>c. Some (gA c)) (\<lambda>c. Some (gB c)) numFunc1 numFunc2 omp m p th =
          omp_for (kernel_loop_body (\<lambda>c. Some (?sel th c)) m p) (snd th) 0"
      by (simp only: kernel2_thread_eq [OF nz])
    also have "\<dots> = Some (0 + ?r th)"
      using rdc by (rule omp_for_kernel)
    finally show "kernel2_thread (\<lambda>c. Some (gA c)) (\<lambda>c. Some (gB c)) numFunc1 numFunc2 omp m p th =
      Some (?r th)"
      by (simp only: add_0_left)
  qed
  have tail: "readable m (p + unat (kernel_chunked_bufsize n))
      (unat (scast (kernel_leftover n) :: size_t))"
    using readable_tail [OF rd]
    by (simp only: scast_kernel_leftover unat_leftover_size_t unat_kernel_chunked_bufsize)
  show ?thesis
    unfolding count_bits_kernel2_def nat_sint_kernel_num_chunks
      omp_parallel_reduction_eq [OF thr] add_leftover_eq [OF tail]
    by (simp only: scast_kernel_leftover unat_leftover_size_t unat_kernel_chunked_bufsize
        add_0_left)
qed

lemma count_bits_kernel2_same:
  assumes nz: "numFunc1 + numFunc2 \<noteq> 0"
  shows "count_bits_kernel2 func func numFunc1 numFunc2 omp m p n = count_bits_kernel func omp m p n"
proof -
  have "kernel2_thread func func numFunc1 numFunc2 omp m p =
        (\<lambda>(thread_id, iters). omp_for (kernel_loop_body func m p) iters 0)"
    by (intro ext) (simp add: kernel2_thread_eq [OF nz] case_prod_unfold)
  then show ?thesis
    by (simp only: count_bits_kernel2_def count_bits_kernel_def)
qed

lemma count_bits_kernel2_small_team:
  assumes T: "int (omp_num_threads omp) < numFunc1 + numFunc2"
  shows "count_bits_kernel2 func func2 numFunc1 numFunc2 omp m p n =
         count_bits_kernel func2 omp m p n"
proof -
  from T have pos: "0 < numFunc1 + numFunc2"
    by (rule le_less_trans [rotated]) simp
  then have nz: "numFunc1 + numFunc2 \<noteq> 0"
    by simp
  have "int (omp_num_threads omp) sdiv (numFunc1 + numFunc2) =
        int (omp_num_threads omp) div (numFunc1 + numFunc2)"
    using pos by (intro sdiv_nonneg) simp_all
  also have "\<dots> = 0"
    using T by simp
  finally have z: "int (omp_num_threads omp) sdiv (numFunc1 + numFunc2) = 0" .
  have "kernel2_thread func func2 numFunc1 numFunc2 omp m p =
        (\<lambda>(thread_id, iters). omp_for (kernel_loop_body func2 m p) iters 0)"
    by (intro ext) (simp add: kernel2_thread_eq [OF nz] case_prod_unfold z)
  then show ?thesis
    by (simp only: count_bits_kernel2_def count_bits_kernel_def)
qed

text \<open>All counting functions agree with the number of set bits.\<close>

lemma count_bits_kernel_popcount:
  assumes ok: "omp_env_ok omp" and rd: "readable m p (unat n)"
    and g: "\<And>c. func c = Some (of_nat (pop_count c))"
  shows "count_bits_kernel func omp m p n = Some (of_nat (buffer_bits m p (unat n)))"
proof -
  have f: "func = (\<lambda>c. Some (of_nat (pop_count c)))"
    by (intro ext) (rule g)
  let ?N = "unat n div 8"
  have "(\<Sum>i\<leftarrow>[0..<?N]. (of_nat (pop_count (chunk_at m (p + i * 8))) :: long)) =
        of_nat (buffer_bits m p (8 * ?N))"
    by (simp only: of_nat_sum_list [symmetric] chunks_bits)
  moreover have "buffer_bits m p (unat n) =
      buffer_bits m p (8 * ?N) + buffer_bits m (p + 8 * ?N) (unat n mod 8)"
    using buffer_bits_add [of m p "8 * ?N" "unat n mod 8"] by simp
  ultimately show ?thesis
    unfolding f count_bits_kernel_eq [OF ok rd] by (simp only: of_nat_add)
qed

lemma only_buffer_in: "k < n \<Longrightarrow> only_buffer m p n (p + k) = m (p + k)"
  by (simp add: only_buffer_def)

lemma readable_only_buffer: "readable (only_buffer m p n) p n = readable m p n"
  by (simp add: readable_def only_buffer_in)

lemma buffer_bits_only_buffer: "buffer_bits (only_buffer m p n) p n = buffer_bits m p n"
proof -
  have "map (\<lambda>k. pop_count (the (only_buffer m p n (p + k)))) [0..<n] =
        map (\<lambda>k. pop_count (the (m (p + k)))) [0..<n]"
    by (rule map_cong) (simp_all add: only_buffer_in)
  then show ?thesis
    by (simp only: buffer_bits_def)
qed

lemma init_lookup_table_Some:
  assumes "length tbl = 256" and "init_lookup_table tbl = Some t"
  shows "lookup_table_ok t"
  using init_lookup_table_ok [OF assms(1)] assms(2) by auto

lemma count_bits_table_eq:
  assumes "omp_env_ok omp" and "readable m p (unat n)" and "lookup_table_ok t"
  shows "count_bits_table t omp m p n = Some (of_nat (buffer_bits m p (unat n)))"
  unfolding count_bits_table_def
  using assms(1,2) by (rule count_bits_kernel_popcount) (rule table_kernel_eq [OF assms(3)])

lemma count_bits_kernighan_eq:
  assumes "omp_env_ok omp" and "readable m p (unat n)"
  shows "count_bits_kernighan omp m p n = Some (of_nat (buffer_bits m p (unat n)))"
  unfolding count_bits_kernighan_def
  using assms by (rule count_bits_kernel_popcount) (simp only: kernighan_kernel_eq)

lemma count_bits_sidewaysaddition_eq:
  assumes "omp_env_ok omp" and "readable m p (unat n)"
  shows "count_bits_sidewaysaddition omp m p n = Some (of_nat (buffer_bits m p (unat n)))"
  unfolding count_bits_sidewaysaddition_def
  using assms by (rule count_bits_kernel_popcount) (simp only: sidewaysaddition_kernel_eq)

lemma count_bits_intrinsic_eq:
  assumes "omp_env_ok omp" and "readable m p (unat n)"
  shows "count_bits_intrinsic omp m p n = Some (of_nat (buffer_bits m p (unat n)))"
  unfolding count_bits_intrinsic_def
  using assms by (rule count_bits_kernel_popcount) (simp only: intrinsic_kernel_eq)

lemma count_bits_intrinsic_double_eq:
  assumes "omp_env_ok omp" and "readable m p (unat n)"
  shows "count_bits_intrinsic_double omp m p n = Some (of_nat (buffer_bits m p (unat n)))"
  unfolding count_bits_intrinsic_double_def count_bits_kernel_double_eq
  using assms by (rule count_bits_kernel_popcount) (simp only: intrinsic_kernel_double_eq)

lemma count_bits_optimized_eq:
  assumes "omp_env_ok omp" and "readable m p (unat n)"
  shows "count_bits_optimized omp m p n = Some (of_nat (buffer_bits m p (unat n)))"
proof -
  have "(\<lambda>chunk. Some (intrinsic_kernel chunk)) = (\<lambda>chunk. Some (sidewaysaddition_kernel chunk))"
    by (simp only: intrinsic_kernel_eq sidewaysaddition_kernel_eq)
  then have "count_bits_optimized omp m p n =
      count_bits_kernel (\<lambda>chunk. Some (sidewaysaddition_kernel chunk)) omp m p n"
    unfolding count_bits_optimized_def by (simp only: count_bits_kernel2_same)
  also have "\<dots> = Some (of_nat (buffer_bits m p (unat n)))"
    using assms by (rule count_bits_kernel_popcount) (simp only: sidewaysaddition_kernel_eq)
  finally show ?thesis .
qed

text \<open>Every function that main times, through the call of time_bit_counting.\<close>

lemma call_counting_eq:
  assumes "omp_env_ok omp" and "readable (machine_memory s) p (unat n)"
    and "lookup_table_ok (machine_lookup_table s)"
  shows "call_counting func omp p n s = (Some (of_nat (buffer_bits (machine_memory s) p (unat n))), s)"
  using assms
  by (cases func)
    (simp_all add: call_counting_def count_bits_naive_eq count_bits_table_eq
      count_bits_kernighan_eq count_bits_sidewaysaddition_eq count_bits_intrinsic_eq
      count_bits_intrinsic_double_eq count_bits_asm_eq count_bits_optimized_eq)

lemma count_bits_naive_one_byte:
  "count_bits_naive (mem_of_bytes a [b]) a 1 = Some (of_nat (pop_count b))"
proof -
  have "readable (mem_of_bytes a [b]) a (unat (1 :: size_t))"
    using readable_mem_of_bytes [of a "[b]"] by simp
  from count_bits_naive_eq [OF this] show ?thesis
    using buffer_bits_mem_of_bytes [of a "[b]"] by simp
qed

lemma readable_prefix: "readable m p n \<Longrightarrow> k \<le> n \<Longrightarrow> readable m p k"
  by (simp add: readable_def)

lemma example_length: "length example_buffer = unat (19 :: size_t)"
  by (simp add: example_buffer_def)

lemma example_readable: "readable (mem_of_bytes 0 example_buffer) 0 (unat (19 :: size_t))"
  unfolding example_length [symmetric] by (rule readable_mem_of_bytes)

lemma omp_static_3_ok: "omp_env_ok (omp_static 3)"
  by (rule omp_static_ok) simp_all

lemma omp_static_2_ok: "omp_env_ok (omp_static 2)"
  by (rule omp_static_ok) simp_all

lemma omp_static_1_ok: "omp_env_ok (omp_static 1)"
  by (rule omp_static_ok) simp_all

lemma lookup_table_static_length: "length lookup_table_static = 256"
  by (simp add: lookup_table_static_def)


lemma buffer_bits_0: "buffer_bits m p 0 = 0"
  by (simp add: buffer_bits_def)

lemma readable_0: "readable m p 0"
  by (simp add: readable_def)

lemma count_bits_asm_chunked_short:
  assumes "unat bufsize < 8"
  shows "count_bits_asm_chunked m buffer bufsize = Some 0"
proof -
  have "unat bufsize div 8 = 0"
    using assms by simp
  then have "unat (bufsize div of_nat chunk_size) = 0"
    by (simp only: unat_div unat_chunk_size)
  then have "bufsize div of_nat chunk_size = 0"
    by (simp only: unat_eq_0)
  then show ?thesis
    by (simp add: count_bits_asm_chunked_def)
qed

lemma lookup_table_ok_unique:
  assumes "lookup_table_ok t" and "lookup_table_ok t'"
  shows "t = t'"
proof (rule nth_equalityI)
  show "length t = length t'"
    using assms by (simp add: lookup_table_ok_def)
  fix i assume "i < length t"
  then have "i < 256"
    using assms(1) by (simp add: lookup_table_ok_def)
  then show "t ! i = t' ! i"
    using assms by (simp add: lookup_table_ok_def)
qed

lemma init_lookup_table_idem:
  assumes "lookup_table_ok t"
  shows "init_lookup_table t = Some t"
proof -
  from assms have "length t = 256"
    by (simp add: lookup_table_ok_def)
  from init_lookup_table_ok [OF this] obtain t' where t': "init_lookup_table t = Some t'"
    and ok: "lookup_table_ok t'"
    by blast
  from lookup_table_ok_unique [OF ok assms] t' show ?thesis
    by simp
qed

lemma call_counting_state: "snd (call_counting func omp buffer bufsize s) = s"
  by (simp add: call_counting_def Let_def)

lemma scast_lookup_table_entry:
  assumes "lookup_table_ok t" and "i < 256"
  shows "(scast (t ! i) :: long) = of_nat (pop_count (of_nat i :: uchar))"
proof -
  have "pop_count (of_nat i :: uchar) \<le> 8"
    using pop_count_le [of "of_nat i :: uchar"] by simp
  then have "pop_count (of_nat i :: uchar) < 2 ^ 31"
    by simp
  from scast_of_nat_small [OF this] assms show ?thesis
    by (simp add: lookup_table_ok_def)
qed

lemma team_of_one:
  assumes "omp_num_threads omp = 1"
  shows "int (omp_num_threads omp) < 1 + 1"
  using assms by simp

lemma half_team: "(int thread_id < int T sdiv (1 + 1)) = (thread_id < T div 2)"
proof -
  have "int T sdiv (1 + 1) = int T div 2"
    by (simp add: sdiv_nonneg)
  also have "\<dots> = int (T div 2)"
    by simp
  finally show ?thesis
    by simp
qed

section \<open>The properties\<close>

text \<open>
  C5.  For every chunk, also one whose top bit is set, the loop of \<open>kernighan_kernel\<close>
  ends: started on \<open>chunk\<close> with \<open>total = tot\<close> after \<open>n\<close> iterations, it exits with
  \<open>total\<close> raised by the number of set bits of \<open>chunk\<close> after exactly that many further
  iterations, whatever the width of the word; so \<open>kernighan_kernel\<close> returns the number
  of set bits.  After \<open>k\<close> iterations the loop variable is not zero exactly when \<open>k\<close> is
  below the number of set bits, and the loop is then in the state with the step applied
  \<open>k\<close> times, \<open>total\<close> raised by \<open>k\<close> and \<open>k\<close> more iterations counted.  One iteration
  on a chunk that is not zero clears its lowest set bit and nothing else, which lowers the
  number of set bits by one.
\<close>

theorem kernighan_kernel_counts_set_bits:
  "kernighan_loop chunk tot n = (tot + of_nat (pop_count chunk), n + pop_count chunk) \<and>
   kernighan_kernel chunk = of_nat (pop_count chunk) \<and>
   unat (kernighan_kernel chunk) = pop_count chunk \<and>
   snd (kernighan_loop chunk 0 0) = pop_count chunk \<and>
   (\<forall>k. ((kernighan_step ^^ k) chunk \<noteq> 0) = (k < pop_count chunk)) \<and>
   (\<forall>k\<le>pop_count chunk.
      kernighan_loop chunk tot n =
      kernighan_loop ((kernighan_step ^^ k) chunk) (tot + of_nat k) (n + k)) \<and>
   (chunk \<noteq> 0 \<longrightarrow>
      kernighan_loop chunk tot n = kernighan_loop (kernighan_step chunk) (tot + 1) (Suc n) \<and>
      Suc (pop_count (kernighan_step chunk)) = pop_count chunk \<and>
      (\<exists>i. bit chunk i \<and> (\<forall>j<i. \<not> bit chunk j) \<and> kernighan_step chunk = unset_bit i chunk))"
proof (intro conjI allI impI)
  show "kernighan_loop chunk tot n = (tot + of_nat (pop_count chunk), n + pop_count chunk)"
    by (rule kernighan_loop_eq)
  show eq: "kernighan_kernel chunk = of_nat (pop_count chunk)"
    by (rule kernighan_kernel_eq)
  have "pop_count chunk \<le> 64"
    using pop_count_le [of chunk] by simp
  then have "unat (word_of_nat (pop_count chunk) :: long) = pop_count chunk"
    by (simp add: unat_of_nat)
  then show "unat (kernighan_kernel chunk) = pop_count chunk"
    by (simp only: eq)
  show "snd (kernighan_loop chunk 0 0) = pop_count chunk"
    by (simp add: kernighan_loop_eq)
next
  fix k
  show "((kernighan_step ^^ k) chunk \<noteq> 0) = (k < pop_count chunk)"
    by (simp only: kernighan_step_funpow kernighan_iterations)
next
  fix k assume "k \<le> pop_count chunk"
  then show "kernighan_loop chunk tot n =
      kernighan_loop ((kernighan_step ^^ k) chunk) (tot + of_nat k) (n + k)"
    by (rule kernighan_loop_unroll)
next
  assume nz: "chunk \<noteq> 0"
  then show "kernighan_loop chunk tot n = kernighan_loop (kernighan_step chunk) (tot + 1) (Suc n)"
    by (subst kernighan_loop.simps) simp
  show "Suc (pop_count (kernighan_step chunk)) = pop_count chunk"
    unfolding kernighan_step_def using nz by (rule pop_count_clear_lowest)
  show "\<exists>i. bit chunk i \<and> (\<forall>j<i. \<not> bit chunk j) \<and> kernighan_step chunk = unset_bit i chunk"
    unfolding kernighan_step_def using nz by (rule lowest_bit_word)
qed

theorem kernighan_kernel_counts_set_bits_witness:
  "kernighan_loop 0x8000000000000000 0 0 = (1, 1) \<and>
   kernighan_kernel 0x8000000000000000 = 1 \<and>
   (0x8000000000000000 :: long) \<noteq> 0 \<and>
   kernighan_loop 0x8000000000000000 0 0 = kernighan_loop (kernighan_step 0x8000000000000000) 1 1 \<and>
   Suc (pop_count (kernighan_step 0x8000000000000000)) = 1 \<and>
   (1 :: nat) \<le> pop_count (0x8000000000000000 :: long) \<and>
   kernighan_loop 0x8000000000000000 0 0 =
     kernighan_loop ((kernighan_step ^^ 1) 0x8000000000000000) 1 1 \<and>
   (kernighan_step ^^ 1) 0x8000000000000000 = 0"
proof -
  let ?c = "0x8000000000000000 :: long"
  have p: "pop_count ?c = 1"
    by (simp add: pop_count_pcn pcn.simps)
  have nz: "?c \<noteq> 0"
    by simp
  have le: "(1 :: nat) \<le> pop_count ?c"
    by (simp only: p)
  note t = kernighan_kernel_counts_set_bits [of ?c 0 0]
  from t have "kernighan_loop ?c 0 0 = (0 + of_nat (pop_count ?c), 0 + pop_count ?c)"
    by (rule conjunct1)
  then have a: "kernighan_loop ?c 0 0 = (1, 1)"
    by (simp only: p) simp
  from t have "kernighan_kernel ?c = of_nat (pop_count ?c)"
    by (elim conjE)
  then have b: "kernighan_kernel ?c = 1"
    by (simp only: p) simp
  from t have "?c \<noteq> 0 \<longrightarrow>
      kernighan_loop ?c 0 0 = kernighan_loop (kernighan_step ?c) (0 + 1) (Suc 0) \<and>
      Suc (pop_count (kernighan_step ?c)) = pop_count ?c \<and>
      (\<exists>i. bit ?c i \<and> (\<forall>j<i. \<not> bit ?c j) \<and> kernighan_step ?c = unset_bit i ?c)"
    by (elim conjE)
  then have step: "kernighan_loop ?c 0 0 = kernighan_loop (kernighan_step ?c) (0 + 1) (Suc 0) \<and>
      Suc (pop_count (kernighan_step ?c)) = pop_count ?c \<and>
      (\<exists>i. bit ?c i \<and> (\<forall>j<i. \<not> bit ?c j) \<and> kernighan_step ?c = unset_bit i ?c)"
    using nz by (rule mp)
  from step have "kernighan_loop ?c 0 0 = kernighan_loop (kernighan_step ?c) (0 + 1) (Suc 0)"
    by (rule conjunct1)
  moreover from step have "Suc (pop_count (kernighan_step ?c)) = pop_count ?c"
    by (rule conjunct2 [THEN conjunct1])
  ultimately have c: "kernighan_loop ?c 0 0 = kernighan_loop (kernighan_step ?c) 1 1"
    and d: "Suc (pop_count (kernighan_step ?c)) = 1"
    by (simp_all only: p add_0 One_nat_def)
  from t have "\<forall>k\<le>pop_count ?c. kernighan_loop ?c 0 0 =
      kernighan_loop ((kernighan_step ^^ k) ?c) (0 + of_nat k) (0 + k)"
    by (elim conjE)
  with le have "kernighan_loop ?c 0 0 =
      kernighan_loop ((kernighan_step ^^ 1) ?c) (0 + of_nat 1) (0 + 1)"
    by blast
  then have e: "kernighan_loop ?c 0 0 = kernighan_loop ((kernighan_step ^^ 1) ?c) 1 1"
    by (simp only: add_0 of_nat_1)
  from t have "\<forall>k. ((kernighan_step ^^ k) ?c \<noteq> 0) = (k < pop_count ?c)"
    by (elim conjE)
  then have "((kernighan_step ^^ 1) ?c \<noteq> 0) = (1 < pop_count ?c)"
    by (rule spec)
  then have f: "(kernighan_step ^^ 1) ?c = 0"
    by (simp only: p) simp
  from a b nz c d le e f show ?thesis
    by (intro conjI)
qed

text \<open>
  C10.  \<open>sidewaysaddition_kernel\<close> returns the number of set bits of every 64-bit
  chunk, also when the top bit is set and the arithmetic shifts fill in copies of it:
  under each of the masks \<open>B1\<close>, \<open>B2\<close> and \<open>B3\<close> the arithmetic shift of the macro
  that uses the mask is the logical shift.
\<close>

theorem sidewaysaddition_kernel_counts_set_bits:
  "sidewaysaddition_kernel chunk = of_nat (pop_count chunk) \<and>
   unat (sidewaysaddition_kernel chunk) = pop_count chunk \<and>
   signed_drop_bit 1 val AND B1 = drop_bit 1 val AND B1 \<and>
   signed_drop_bit 2 val AND B2 = drop_bit 2 val AND B2 \<and>
   signed_drop_bit 4 val AND B3 = drop_bit 4 val AND B3"
proof (intro conjI)
  show eq: "sidewaysaddition_kernel chunk = of_nat (pop_count chunk)"
    by (rule sidewaysaddition_kernel_eq)
  have "pop_count chunk \<le> 64"
    using pop_count_le [of chunk] by simp
  then have "unat (word_of_nat (pop_count chunk) :: long) = pop_count chunk"
    by (simp add: unat_of_nat)
  then show "unat (sidewaysaddition_kernel chunk) = pop_count chunk"
    by (simp only: eq)
  show "signed_drop_bit 1 val AND B1 = drop_bit 1 val AND B1"
    by (rule signed_drop_bit_and) (simp add: B1_mask)
  show "signed_drop_bit 2 val AND B2 = drop_bit 2 val AND B2"
    by (rule signed_drop_bit_and) (simp add: B2_mask)
  show "signed_drop_bit 4 val AND B3 = drop_bit 4 val AND B3"
    by (rule signed_drop_bit_and) (simp add: B3_def mask_eq_exp_minus_1)
qed

text \<open>
  C1.  On every buffer that can be read, with any team of threads and any assignment of
  the loop iterations to the threads, and with the lookup table that \<open>init_lookup_table\<close>
  has built, each of \<open>count_bits_table\<close>, \<open>count_bits_kernighan\<close>,
  \<open>count_bits_sidewaysaddition\<close>, \<open>count_bits_intrinsic\<close>,
  \<open>count_bits_intrinsic_double\<close>, \<open>count_bits_asm\<close> and \<open>count_bits_optimized\<close>
  returns what \<open>count_bits_naive\<close> returns, which is the number of set bits of the
  buffer (as a \<open>long\<close>).  The length is arbitrary: zero, less than a chunk, a multiple of
  the chunk size or not.
\<close>

theorem count_bits_variants_agree:
  assumes "omp_env_ok omp" and "readable m buffer (unat bufsize)"
    and "length tbl = 256" and "init_lookup_table tbl = Some lookup_table"
  shows "count_bits_table lookup_table omp m buffer bufsize = count_bits_naive m buffer bufsize \<and>
         count_bits_kernighan omp m buffer bufsize = count_bits_naive m buffer bufsize \<and>
         count_bits_sidewaysaddition omp m buffer bufsize = count_bits_naive m buffer bufsize \<and>
         count_bits_intrinsic omp m buffer bufsize = count_bits_naive m buffer bufsize \<and>
         count_bits_intrinsic_double omp m buffer bufsize = count_bits_naive m buffer bufsize \<and>
         count_bits_asm omp m buffer bufsize = count_bits_naive m buffer bufsize \<and>
         count_bits_optimized omp m buffer bufsize = count_bits_naive m buffer bufsize \<and>
         count_bits_naive m buffer bufsize = Some (of_nat (buffer_bits m buffer (unat bufsize)))"
proof -
  have t: "lookup_table_ok lookup_table"
    using assms(3,4) by (rule init_lookup_table_Some)
  note ok = assms(1) and rd = assms(2)
  show ?thesis
    by (simp only: count_bits_naive_eq [OF rd] count_bits_table_eq [OF ok rd t]
        count_bits_kernighan_eq [OF ok rd] count_bits_sidewaysaddition_eq [OF ok rd]
        count_bits_intrinsic_eq [OF ok rd] count_bits_intrinsic_double_eq [OF ok rd]
        count_bits_asm_eq [OF ok rd] count_bits_optimized_eq [OF ok rd] simp_thms)
qed

theorem count_bits_variants_agree_witness:
  "\<exists>t. init_lookup_table lookup_table_static = Some t \<and>
     count_bits_table t (omp_static 3) (mem_of_bytes 0 example_buffer) 0 19 = Some 62 \<and>
     count_bits_kernighan (omp_static 3) (mem_of_bytes 0 example_buffer) 0 19 = Some 62 \<and>
     count_bits_sidewaysaddition (omp_static 3) (mem_of_bytes 0 example_buffer) 0 19 = Some 62 \<and>
     count_bits_intrinsic (omp_static 3) (mem_of_bytes 0 example_buffer) 0 19 = Some 62 \<and>
     count_bits_intrinsic_double (omp_static 3) (mem_of_bytes 0 example_buffer) 0 19 = Some 62 \<and>
     count_bits_asm (omp_static 3) (mem_of_bytes 0 example_buffer) 0 19 = Some 62 \<and>
     count_bits_optimized (omp_static 3) (mem_of_bytes 0 example_buffer) 0 19 = Some 62"
proof -
  from init_lookup_table_ok [OF lookup_table_static_length]
  obtain t where t: "init_lookup_table lookup_table_static = Some t"
    by blast
  have naive: "count_bits_naive (mem_of_bytes 0 example_buffer) 0 19 = Some 62"
    by code_simp
  from count_bits_variants_agree [OF omp_static_3_ok example_readable lookup_table_static_length t]
  show ?thesis
    unfolding naive using t by blast
qed




text \<open>
  C3.  No counting function reads outside the buffer: in a memory where only the bytes of
  the buffer are mapped, so that any other read fails, every function that \<open>main\<close> times,
  and \<open>count_bits_asm_chunked\<close>, still returns its count.  On an empty buffer every one
  of them returns 0 in a memory where no address is mapped at all, so it reads nothing;
  \<open>count_bits_asm_chunked\<close> does so on every buffer shorter than a chunk, since it
  returns before its loop.
\<close>

theorem no_read_outside_buffer:
  assumes ok: "omp_env_ok omp" and rd: "readable m buffer (unat bufsize)"
    and len: "length tbl = 256" and tbl: "init_lookup_table tbl = Some t"
  shows "(\<forall>func. fst (call_counting func omp buffer bufsize
            \<lparr>machine_memory = only_buffer m buffer (unat bufsize), machine_lookup_table = t\<rparr>) =
          Some (of_nat (buffer_bits m buffer (unat bufsize)))) \<and>
         count_bits_asm_chunked (only_buffer m buffer (unat bufsize)) buffer bufsize =
          Some (of_nat (buffer_bits m buffer (8 * (unat bufsize div 8)))) \<and>
         (\<forall>func. fst (call_counting func omp buffer 0
            \<lparr>machine_memory = Map.empty, machine_lookup_table = t\<rparr>) = Some 0) \<and>
         (\<forall>short. unat short < 8 \<longrightarrow> count_bits_asm_chunked Map.empty buffer short = Some 0)"
proof (intro conjI allI impI)
  have t: "lookup_table_ok t"
    using len tbl by (rule init_lookup_table_Some)
  let ?m = "only_buffer m buffer (unat bufsize)"
  have rd': "readable ?m buffer (unat bufsize)"
    using rd by (simp only: readable_only_buffer)
  fix func
  show "fst (call_counting func omp buffer bufsize
            \<lparr>machine_memory = ?m, machine_lookup_table = t\<rparr>) =
          Some (of_nat (buffer_bits m buffer (unat bufsize)))"
    using call_counting_eq [of omp "\<lparr>machine_memory = ?m, machine_lookup_table = t\<rparr>"
        buffer bufsize func] ok rd' t
    by (simp add: buffer_bits_only_buffer)
  have "readable Map.empty buffer (unat (0 :: size_t))"
    by (simp add: readable_0)
  then show "fst (call_counting func omp buffer 0
            \<lparr>machine_memory = Map.empty, machine_lookup_table = t\<rparr>) = Some 0"
    using call_counting_eq [of omp "\<lparr>machine_memory = Map.empty, machine_lookup_table = t\<rparr>"
        buffer 0 func] ok t
    by (simp add: buffer_bits_0)
next
  let ?m = "only_buffer m buffer (unat bufsize)"
  have "readable ?m buffer (unat bufsize)"
    using rd by (simp only: readable_only_buffer)
  then have r8: "readable ?m buffer (8 * (unat bufsize div 8))"
    by (rule readable_prefix) simp
  have "map (\<lambda>k. pop_count (the (?m (buffer + k)))) [0..<8 * (unat bufsize div 8)] =
        map (\<lambda>k. pop_count (the (m (buffer + k)))) [0..<8 * (unat bufsize div 8)]"
  proof (rule map_cong [OF refl])
    fix k assume "k \<in> set [0..<8 * (unat bufsize div 8)]"
    then have "k < unat bufsize"
      by simp
    then show "pop_count (the (?m (buffer + k))) = pop_count (the (m (buffer + k)))"
      by (simp only: only_buffer_in)
  qed
  then have "buffer_bits ?m buffer (8 * (unat bufsize div 8)) =
      buffer_bits m buffer (8 * (unat bufsize div 8))"
    by (simp only: buffer_bits_def)
  then show "count_bits_asm_chunked ?m buffer bufsize =
          Some (of_nat (buffer_bits m buffer (8 * (unat bufsize div 8))))"
    by (simp only: count_bits_asm_chunked_eq [OF r8])
next
  fix short :: size_t assume "unat short < 8"
  then show "count_bits_asm_chunked Map.empty buffer short = Some 0"
    by (rule count_bits_asm_chunked_short)
qed

theorem no_read_outside_buffer_witness:
  "\<exists>t. init_lookup_table lookup_table_static = Some t \<and>
     fst (call_counting Count_bits_asm (omp_static 3) 100 19
       \<lparr>machine_memory = only_buffer (mem_of_bytes 100 example_buffer) 100 19,
        machine_lookup_table = t\<rparr>) = Some 62 \<and>
     fst (call_counting Count_bits_table (omp_static 3) 100 0
       \<lparr>machine_memory = Map.empty, machine_lookup_table = t\<rparr>) = Some 0 \<and>
     unat (7 :: size_t) < 8 \<and>
     count_bits_asm_chunked Map.empty 100 7 = Some 0"
proof -
  from init_lookup_table_ok [OF lookup_table_static_length]
  obtain t where t: "init_lookup_table lookup_table_static = Some t"
    by blast
  have rd: "readable (mem_of_bytes 100 example_buffer) 100 (unat (19 :: size_t))"
    unfolding example_length [symmetric] by (rule readable_mem_of_bytes)
  have bb: "buffer_bits (mem_of_bytes 100 example_buffer) 100 19 = 62"
    by code_simp
  have s: "unat (7 :: size_t) < 8"
    by simp
  note inst = no_read_outside_buffer [OF omp_static_3_ok rd lookup_table_static_length t]
  from inst have a: "fst (call_counting Count_bits_asm (omp_static 3) 100 19
       \<lparr>machine_memory = only_buffer (mem_of_bytes 100 example_buffer) 100 19,
        machine_lookup_table = t\<rparr>) = Some 62"
    by (simp add: bb)
  from inst have b: "fst (call_counting Count_bits_table (omp_static 3) 100 0
       \<lparr>machine_memory = Map.empty, machine_lookup_table = t\<rparr>) = Some 0"
    by blast
  from inst s have c: "count_bits_asm_chunked Map.empty 100 7 = Some 0"
    by blast
  from t a b s c show ?thesis
    by blast
qed

text \<open>
  C4.  \<open>init_lookup_table\<close>, run on the 256 entries of \<open>lookup_table\<close> whatever they
  hold, succeeds and changes nothing else; afterwards, for every byte value \<open>i\<close> from 0
  to 255, entry \<open>i\<close> is what \<open>count_bits_naive\<close> returns on the one byte \<open>i\<close>, the number
  of set bits of \<open>i\<close>, and \<open>table_kernel\<close> returns the number of set bits of every
  chunk.  Building the table once is enough: running \<open>init_lookup_table\<close> again leaves
  it as it is, and no counting function changes it (they only read it).
\<close>

theorem init_lookup_table_correct:
  assumes "length (machine_lookup_table s) = 256"
  shows "\<exists>s'. call_init_lookup_table s = Some s' \<and>
           machine_memory s' = machine_memory s \<and>
           length (machine_lookup_table s') = 256 \<and>
           (\<forall>i<256. count_bits_naive (mem_of_bytes 0 [of_nat i]) 0 1 =
                       Some (scast (machine_lookup_table s' ! i)) \<and>
                     machine_lookup_table s' ! i = of_nat (pop_count (of_nat i :: uchar))) \<and>
           (\<forall>chunk. table_kernel (machine_lookup_table s') chunk = Some (of_nat (pop_count chunk))) \<and>
           call_init_lookup_table s' = Some s' \<and>
           (\<forall>func omp buffer bufsize. snd (call_counting func omp buffer bufsize s') = s')"
proof -
  from init_lookup_table_ok [OF assms] obtain t
    where t: "init_lookup_table (machine_lookup_table s) = Some t" and ok: "lookup_table_ok t"
    by blast
  let ?s = "s\<lparr>machine_lookup_table := t\<rparr>"
  have 1: "call_init_lookup_table s = Some ?s"
    by (simp add: call_init_lookup_table_def t)
  have 2: "machine_memory ?s = machine_memory s"
    by simp
  have 3: "length (machine_lookup_table ?s) = 256"
    using ok by (simp add: lookup_table_ok_def)
  have 4: "\<forall>i<256. count_bits_naive (mem_of_bytes 0 [of_nat i]) 0 1 =
                       Some (scast (machine_lookup_table ?s ! i)) \<and>
                     machine_lookup_table ?s ! i = of_nat (pop_count (of_nat i :: uchar))"
  proof (intro allI impI conjI)
    fix i :: nat assume i: "i < 256"
    show "count_bits_naive (mem_of_bytes 0 [of_nat i]) 0 1 =
          Some (scast (machine_lookup_table ?s ! i))"
      by (simp add: count_bits_naive_one_byte scast_lookup_table_entry [OF ok i])
    show "machine_lookup_table ?s ! i = of_nat (pop_count (of_nat i :: uchar))"
      using ok i by (simp add: lookup_table_ok_def)
  qed
  have 5: "\<forall>chunk. table_kernel (machine_lookup_table ?s) chunk = Some (of_nat (pop_count chunk))"
    by (simp add: table_kernel_eq [OF ok])
  have 6: "call_init_lookup_table ?s = Some ?s"
    by (simp add: call_init_lookup_table_def init_lookup_table_idem [OF ok])
  have 7: "\<forall>func omp buffer bufsize. snd (call_counting func omp buffer bufsize ?s) = ?s"
    by (simp only: call_counting_state simp_thms)
  from 1 2 3 4 5 6 7 show ?thesis
    by blast
qed

theorem init_lookup_table_correct_witness:
  "\<exists>s'. call_init_lookup_table
           \<lparr>machine_memory = mem_of_bytes 0 example_buffer,
            machine_lookup_table = lookup_table_static\<rparr> = Some s' \<and>
         machine_memory s' = mem_of_bytes 0 example_buffer \<and>
         (177 :: nat) < 256 \<and>
         machine_lookup_table s' ! 177 = 4 \<and>
         count_bits_naive (mem_of_bytes 0 [0xB1]) 0 1 = Some 4"
proof -
  let ?s = "\<lparr>machine_memory = mem_of_bytes 0 example_buffer,
             machine_lookup_table = lookup_table_static\<rparr>"
  have len: "length (machine_lookup_table ?s) = 256"
    by (simp add: lookup_table_static_length)
  have p: "pop_count (0xB1 :: uchar) = 4"
    by (simp add: pop_count_pcn pcn.simps)
  from init_lookup_table_correct [OF len] obtain s'
    where a: "call_init_lookup_table ?s = Some s'"
      and b: "machine_memory s' = machine_memory ?s"
      and c: "\<forall>i<256. count_bits_naive (mem_of_bytes 0 [of_nat i]) 0 1 =
                       Some (scast (machine_lookup_table s' ! i)) \<and>
                     machine_lookup_table s' ! i = of_nat (pop_count (of_nat i :: uchar))"
    by blast
  have lt: "(177 :: nat) < 256"
    by simp
  from c have "(177 :: nat) < 256 \<longrightarrow>
      count_bits_naive (mem_of_bytes 0 [of_nat 177]) 0 1 =
        Some (scast (machine_lookup_table s' ! 177)) \<and>
      machine_lookup_table s' ! 177 = of_nat (pop_count (of_nat 177 :: uchar))"
    by (rule spec)
  then have x: "count_bits_naive (mem_of_bytes 0 [of_nat 177]) 0 1 =
        Some (scast (machine_lookup_table s' ! 177)) \<and>
      machine_lookup_table s' ! 177 = of_nat (pop_count (of_nat 177 :: uchar))"
    using lt by (rule mp)
  from x have "machine_lookup_table s' ! 177 = of_nat (pop_count (of_nat 177 :: uchar))"
    by (rule conjunct2)
  then have d: "machine_lookup_table s' ! 177 = 4"
    by (simp add: p)
  from x have "count_bits_naive (mem_of_bytes 0 [of_nat 177]) 0 1 =
        Some (scast (machine_lookup_table s' ! 177))"
    by (rule conjunct1)
  then have e: "count_bits_naive (mem_of_bytes 0 [0xB1]) 0 1 = Some 4"
    by (simp add: d)
  from a b lt d e show ?thesis
    by simp
qed

text \<open>
  C6.  The total does not depend on the team: take two OpenMP environments, each with
  any number of threads, any assignment of the loop iterations to the threads (contiguous
  ranges or not) and any order in which the threads' sums are added to \<open>total\<close>.  On
  the same readable buffer \<open>count_bits_kernel\<close> and \<open>count_bits_kernel_double\<close>
  return the same \<open>long\<close> with any kernel \<open>g\<close>, namely the sum of \<open>g\<close> over the whole
  chunks plus the bits of the tail, \<open>count_bits_kernel2\<close> does so when both its
  kernels are \<open>g\<close>, and every counting function that \<open>main\<close> times returns the same
  \<open>long\<close> in both environments.  All the arithmetic is on 64-bit integers.
\<close>

theorem thread_count_invariance:
  assumes ok1: "omp_env_ok omp1" and ok2: "omp_env_ok omp2"
    and rd: "readable m buffer (unat bufsize)"
    and len: "length tbl = 256" and tbl: "init_lookup_table tbl = Some t"
    and nz: "numFunc1 + numFunc2 \<noteq> 0"
  shows "count_bits_kernel (\<lambda>c. Some (g c)) omp1 m buffer bufsize =
           count_bits_kernel (\<lambda>c. Some (g c)) omp2 m buffer bufsize \<and>
         count_bits_kernel (\<lambda>c. Some (g c)) omp1 m buffer bufsize =
           Some ((\<Sum>i\<leftarrow>[0..<unat bufsize div 8]. g (chunk_at m (buffer + i * 8))) +
                 of_nat (buffer_bits m (buffer + 8 * (unat bufsize div 8)) (unat bufsize mod 8))) \<and>
         count_bits_kernel_double (\<lambda>c. Some (g c)) omp1 m buffer bufsize =
           count_bits_kernel_double (\<lambda>c. Some (g c)) omp2 m buffer bufsize \<and>
         count_bits_kernel2 (\<lambda>c. Some (g c)) (\<lambda>c. Some (g c)) numFunc1 numFunc2
             omp1 m buffer bufsize =
           count_bits_kernel2 (\<lambda>c. Some (g c)) (\<lambda>c. Some (g c)) numFunc1 numFunc2
             omp2 m buffer bufsize \<and>
         count_bits_table t omp1 m buffer bufsize = count_bits_table t omp2 m buffer bufsize \<and>
         count_bits_kernighan omp1 m buffer bufsize = count_bits_kernighan omp2 m buffer bufsize \<and>
         count_bits_sidewaysaddition omp1 m buffer bufsize =
           count_bits_sidewaysaddition omp2 m buffer bufsize \<and>
         count_bits_intrinsic omp1 m buffer bufsize = count_bits_intrinsic omp2 m buffer bufsize \<and>
         count_bits_intrinsic_double omp1 m buffer bufsize =
           count_bits_intrinsic_double omp2 m buffer bufsize \<and>
         count_bits_asm omp1 m buffer bufsize = count_bits_asm omp2 m buffer bufsize \<and>
         count_bits_optimized omp1 m buffer bufsize = count_bits_optimized omp2 m buffer bufsize \<and>
         count_bits_asm omp1 m buffer bufsize = Some (of_nat (buffer_bits m buffer (unat bufsize)))"
proof -
  have t: "lookup_table_ok t"
    using len tbl by (rule init_lookup_table_Some)
  show ?thesis
    by (simp only: count_bits_kernel_double_eq count_bits_kernel2_same [OF nz]
        count_bits_kernel_eq [OF ok1 rd] count_bits_kernel_eq [OF ok2 rd]
        count_bits_table_eq [OF ok1 rd t] count_bits_table_eq [OF ok2 rd t]
        count_bits_kernighan_eq [OF ok1 rd] count_bits_kernighan_eq [OF ok2 rd]
        count_bits_sidewaysaddition_eq [OF ok1 rd] count_bits_sidewaysaddition_eq [OF ok2 rd]
        count_bits_intrinsic_eq [OF ok1 rd] count_bits_intrinsic_eq [OF ok2 rd]
        count_bits_intrinsic_double_eq [OF ok1 rd] count_bits_intrinsic_double_eq [OF ok2 rd]
        count_bits_asm_eq [OF ok1 rd] count_bits_asm_eq [OF ok2 rd]
        count_bits_optimized_eq [OF ok1 rd] count_bits_optimized_eq [OF ok2 rd] simp_thms)
qed

theorem thread_count_invariance_witness:
  "\<exists>t. init_lookup_table lookup_table_static = Some t \<and>
     count_bits_kernighan (omp_static 1) (mem_of_bytes 0 example_buffer) 0 19 =
       count_bits_kernighan (omp_static 3) (mem_of_bytes 0 example_buffer) 0 19 \<and>
     count_bits_asm (omp_static 1) (mem_of_bytes 0 example_buffer) 0 19 =
       count_bits_asm (omp_static 3) (mem_of_bytes 0 example_buffer) 0 19 \<and>
     count_bits_asm (omp_static 1) (mem_of_bytes 0 example_buffer) 0 19 = Some 62 \<and>
     count_bits_optimized (omp_static 1) (mem_of_bytes 0 example_buffer) 0 19 =
       count_bits_optimized (omp_static 2) (mem_of_bytes 0 example_buffer) 0 19 \<and>
     count_bits_table t (omp_static 1) (mem_of_bytes 0 example_buffer) 0 19 =
       count_bits_table t (omp_static 2) (mem_of_bytes 0 example_buffer) 0 19"
proof -
  from init_lookup_table_ok [OF lookup_table_static_length]
  obtain t where t: "init_lookup_table lookup_table_static = Some t"
    by blast
  have nz: "(1 :: int) + 1 \<noteq> 0"
    by simp
  have bb: "buffer_bits (mem_of_bytes 0 example_buffer) 0 19 = 62"
    by code_simp
  note three = thread_count_invariance [OF omp_static_1_ok omp_static_3_ok example_readable
      lookup_table_static_length t nz, where g = "\<lambda>c. 1"]
  note two = thread_count_invariance [OF omp_static_1_ok omp_static_2_ok example_readable
      lookup_table_static_length t nz, where g = "\<lambda>c. 1"]
  from three have a1: "count_bits_kernighan (omp_static 1) (mem_of_bytes 0 example_buffer) 0 19 =
       count_bits_kernighan (omp_static 3) (mem_of_bytes 0 example_buffer) 0 19"
    by (elim conjE)
  from three have a2: "count_bits_asm (omp_static 1) (mem_of_bytes 0 example_buffer) 0 19 =
       count_bits_asm (omp_static 3) (mem_of_bytes 0 example_buffer) 0 19"
    by (elim conjE)
  from three have "count_bits_asm (omp_static 1) (mem_of_bytes 0 example_buffer) 0 19 =
       Some (of_nat (buffer_bits (mem_of_bytes 0 example_buffer) 0 (unat (19 :: size_t))))"
    by (elim conjE)
  then have a3: "count_bits_asm (omp_static 1) (mem_of_bytes 0 example_buffer) 0 19 = Some 62"
    by (simp add: bb)
  from two have b1: "count_bits_optimized (omp_static 1) (mem_of_bytes 0 example_buffer) 0 19 =
       count_bits_optimized (omp_static 2) (mem_of_bytes 0 example_buffer) 0 19"
    by (elim conjE)
  from two have b2: "count_bits_table t (omp_static 1) (mem_of_bytes 0 example_buffer) 0 19 =
       count_bits_table t (omp_static 2) (mem_of_bytes 0 example_buffer) 0 19"
    by (elim conjE)
  from t a1 a2 a3 b1 b2 show ?thesis
    by blast
qed



text \<open>
  C8.  \<open>main\<close> writes the usage line to standard error and returns a status that is not
  zero exactly when \<open>megs_of_data\<close> is zero, and \<open>megs_of_data\<close> is zero exactly when an
  argument is present and \<open>atol\<close> returns 0 for it (as the C library does for a zero and
  for a text that is no number).  In every other case the program goes on to the
  benchmark; without an argument it does so with 100 megabytes.
\<close>

theorem main_usage_error:
  "((\<exists>text status. main atol argv = Usage_error text status \<and> status \<noteq> 0) \<longleftrightarrow>
      megs_of_data atol argv = 0) \<and>
   (megs_of_data atol argv = 0 \<longleftrightarrow> 1 < length argv \<and> atol (argv ! 1) = 0) \<and>
   (megs_of_data atol argv = 0 \<longrightarrow>
      main atol argv =
        Usage_error (''Usage: '' @ argv ! 0 @ '' <megs of data>'' @ [CHR 0x0A]) (- 1)) \<and>
   (megs_of_data atol argv \<noteq> 0 \<longrightarrow>
      main atol argv =
        Benchmark (megs_of_data atol argv) (megs_of_data atol argv * 1024 * 1024)) \<and>
   (length argv \<le> 1 \<longrightarrow> main atol argv = Benchmark 100 (100 * 1024 * 1024))"
proof (intro conjI impI)
  show "(\<exists>text status. main atol argv = Usage_error text status \<and> status \<noteq> 0) \<longleftrightarrow>
      megs_of_data atol argv = 0"
    by (simp add: main_def Let_def)
  show "megs_of_data atol argv = 0 \<longleftrightarrow> 1 < length argv \<and> atol (argv ! 1) = 0"
    by (simp add: megs_of_data_def)
next
  assume "megs_of_data atol argv = 0"
  then show "main atol argv =
        Usage_error (''Usage: '' @ argv ! 0 @ '' <megs of data>'' @ [CHR 0x0A]) (- 1)"
    by (simp add: main_def Let_def)
next
  assume "megs_of_data atol argv \<noteq> 0"
  then show "main atol argv =
        Benchmark (megs_of_data atol argv) (megs_of_data atol argv * 1024 * 1024)"
    by (simp add: main_def Let_def)
next
  assume "length argv \<le> 1"
  then show "main atol argv = Benchmark 100 (100 * 1024 * 1024)"
    by (simp add: main_def megs_of_data_def Let_def)
qed

theorem main_usage_error_witness:
  "megs_of_data (\<lambda>arg. if arg = ''25'' then 25 else 0) [''count_bits'', ''x''] = 0 \<and>
   main (\<lambda>arg. if arg = ''25'' then 25 else 0) [''count_bits'', ''x''] =
     Usage_error (''Usage: count_bits <megs of data>'' @ [CHR 0x0A]) (- 1) \<and>
   megs_of_data (\<lambda>arg. if arg = ''25'' then 25 else 0) [''count_bits'', ''25''] \<noteq> 0 \<and>
   main (\<lambda>arg. if arg = ''25'' then 25 else 0) [''count_bits'', ''25''] =
     Benchmark 25 26214400 \<and>
   length [''count_bits''] \<le> 1 \<and>
   main (\<lambda>arg. if arg = ''25'' then 25 else 0) [''count_bits''] = Benchmark 100 104857600"
proof -
  let ?atol = "\<lambda>arg. if arg = ''25'' then (25 :: long) else 0"
  have z: "megs_of_data ?atol [''count_bits'', ''x''] = 0"
    by (simp add: megs_of_data_def)
  have n: "megs_of_data ?atol [''count_bits'', ''25''] = 25"
    by (simp add: megs_of_data_def)
  have nz: "megs_of_data ?atol [''count_bits'', ''25''] \<noteq> 0"
    by (simp only: n) simp
  have l: "length [''count_bits''] \<le> 1"
    by simp
  from main_usage_error [of ?atol "[''count_bits'', ''x'']"] z
  have a: "main ?atol [''count_bits'', ''x''] =
     Usage_error (''Usage: count_bits <megs of data>'' @ [CHR 0x0A]) (- 1)"
    by simp
  from main_usage_error [of ?atol "[''count_bits'', ''25'']"] nz
  have "main ?atol [''count_bits'', ''25''] =
     Benchmark (megs_of_data ?atol [''count_bits'', ''25''])
       (megs_of_data ?atol [''count_bits'', ''25''] * 1024 * 1024)"
    by blast
  then have b: "main ?atol [''count_bits'', ''25''] = Benchmark 25 26214400"
    by (simp only: n) simp
  from main_usage_error [of ?atol "[''count_bits'']"] l
  have c: "main ?atol [''count_bits''] = Benchmark 100 104857600"
    by simp
  from z a nz b l c show ?thesis
    by (intro conjI)
qed

text \<open>
  C9.  In \<open>count_bits_kernel2\<close> the thread \<open>thread_id\<close> of a team of \<open>T\<close> threads runs
  its share of the loop with kernel \<open>func\<close> if
  \<open>thread_id < T / (numFunc1 + numFunc2)\<close> and with kernel \<open>func2\<close> otherwise; in
  \<open>count_bits_optimized\<close>, where both weights are 1, the threads below \<open>T div 2\<close> run
  \<open>intrinsic_kernel\<close> and the others \<open>sidewaysaddition_kernel\<close>.  The OpenMP runtime
  gives every iteration of the two loops to one thread of the team, so the total is the
  sum, over the threads and their iterations, of the chosen kernel on the chunk, plus the
  bits of the tail; when the two kernels agree it is the sum over every whole chunk once.
  When the team is smaller than \<open>numFunc1 + numFunc2\<close>, as a team of one thread is in
  \<open>count_bits_optimized\<close>, no thread runs \<open>func\<close>: the function returns what
  \<open>count_bits_kernel\<close> returns with \<open>func2\<close> alone, whatever \<open>func\<close> is.  The total
  of \<open>count_bits_optimized\<close> is the number of set bits of the buffer.
\<close>

theorem hybrid_kernel_selection:
  assumes ok: "omp_env_ok omp" and rd: "readable m buffer (unat bufsize)"
    and nz: "numFunc1 + numFunc2 \<noteq> 0"
  shows "(\<forall>thread_id iters.
            kernel2_thread func func2 numFunc1 numFunc2 omp m buffer (thread_id, iters) =
            omp_for (kernel_loop_body
              (if int thread_id < int (omp_num_threads omp) sdiv (numFunc1 + numFunc2)
               then func else func2) m buffer) iters 0) \<and>
         count_bits_kernel2 (\<lambda>c. Some (gA c)) (\<lambda>c. Some (gB c)) numFunc1 numFunc2
             omp m buffer bufsize =
           Some ((\<Sum>th\<leftarrow>omp_schedule omp (unat bufsize div 8). \<Sum>i\<leftarrow>snd th.
                    (if int (fst th) < int (omp_num_threads omp) sdiv (numFunc1 + numFunc2)
                     then gA else gB) (chunk_at m (buffer + i * 8))) +
                 of_nat (buffer_bits m (buffer + 8 * (unat bufsize div 8)) (unat bufsize mod 8))) \<and>
         mset (concat (map snd (omp_schedule omp (unat bufsize div 8)))) =
           mset [0..<unat bufsize div 8] \<and>
         count_bits_kernel2 (\<lambda>c. Some (g c)) (\<lambda>c. Some (g c)) numFunc1 numFunc2
             omp m buffer bufsize =
           Some ((\<Sum>i\<leftarrow>[0..<unat bufsize div 8]. g (chunk_at m (buffer + i * 8))) +
                 of_nat (buffer_bits m (buffer + 8 * (unat bufsize div 8)) (unat bufsize mod 8))) \<and>
         (int (omp_num_threads omp) < numFunc1 + numFunc2 \<longrightarrow>
            count_bits_kernel2 func func2 numFunc1 numFunc2 omp m buffer bufsize =
            count_bits_kernel func2 omp m buffer bufsize) \<and>
         (\<forall>thread_id iters.
            kernel2_thread (\<lambda>chunk. Some (intrinsic_kernel chunk))
              (\<lambda>chunk. Some (sidewaysaddition_kernel chunk)) 1 1 omp m buffer (thread_id, iters) =
            omp_for (kernel_loop_body
              (if thread_id < omp_num_threads omp div 2
               then (\<lambda>chunk. Some (intrinsic_kernel chunk))
               else (\<lambda>chunk. Some (sidewaysaddition_kernel chunk))) m buffer) iters 0) \<and>
         (omp_num_threads omp = 1 \<longrightarrow>
            count_bits_optimized omp m buffer bufsize =
            count_bits_kernel (\<lambda>chunk. Some (sidewaysaddition_kernel chunk)) omp m buffer bufsize) \<and>
         count_bits_optimized omp m buffer bufsize =
           Some (of_nat (buffer_bits m buffer (unat bufsize)))"
proof (intro conjI allI impI)
  fix thread_id :: nat and iters :: "nat list"
  show "kernel2_thread func func2 numFunc1 numFunc2 omp m buffer (thread_id, iters) =
        omp_for (kernel_loop_body
          (if int thread_id < int (omp_num_threads omp) sdiv (numFunc1 + numFunc2)
           then func else func2) m buffer) iters 0"
    by (simp only: kernel2_thread_eq [OF nz] fst_conv snd_conv)
  have one: "(1 :: int) + 1 \<noteq> 0"
    by simp
  show "kernel2_thread (\<lambda>chunk. Some (intrinsic_kernel chunk))
          (\<lambda>chunk. Some (sidewaysaddition_kernel chunk)) 1 1 omp m buffer (thread_id, iters) =
        omp_for (kernel_loop_body
          (if thread_id < omp_num_threads omp div 2
           then (\<lambda>chunk. Some (intrinsic_kernel chunk))
           else (\<lambda>chunk. Some (sidewaysaddition_kernel chunk))) m buffer) iters 0"
    by (simp only: kernel2_thread_eq [OF one] fst_conv snd_conv half_team)
next
  show "count_bits_kernel2 (\<lambda>c. Some (gA c)) (\<lambda>c. Some (gB c)) numFunc1 numFunc2
             omp m buffer bufsize =
           Some ((\<Sum>th\<leftarrow>omp_schedule omp (unat bufsize div 8). \<Sum>i\<leftarrow>snd th.
                    (if int (fst th) < int (omp_num_threads omp) sdiv (numFunc1 + numFunc2)
                     then gA else gB) (chunk_at m (buffer + i * 8))) +
                 of_nat (buffer_bits m (buffer + 8 * (unat bufsize div 8)) (unat bufsize mod 8)))"
    using ok rd nz by (rule count_bits_kernel2_parts)
  show "mset (concat (map snd (omp_schedule omp (unat bufsize div 8)))) =
           mset [0..<unat bufsize div 8]"
    using ok by (rule omp_schedule_iters)
  show "count_bits_kernel2 (\<lambda>c. Some (g c)) (\<lambda>c. Some (g c)) numFunc1 numFunc2
             omp m buffer bufsize =
           Some ((\<Sum>i\<leftarrow>[0..<unat bufsize div 8]. g (chunk_at m (buffer + i * 8))) +
                 of_nat (buffer_bits m (buffer + 8 * (unat bufsize div 8)) (unat bufsize mod 8)))"
    by (simp only: count_bits_kernel2_same [OF nz] count_bits_kernel_eq [OF ok rd])
  show "count_bits_optimized omp m buffer bufsize =
           Some (of_nat (buffer_bits m buffer (unat bufsize)))"
    using ok rd by (rule count_bits_optimized_eq)
next
  assume "int (omp_num_threads omp) < numFunc1 + numFunc2"
  then show "count_bits_kernel2 func func2 numFunc1 numFunc2 omp m buffer bufsize =
            count_bits_kernel func2 omp m buffer bufsize"
    by (rule count_bits_kernel2_small_team)
next
  assume "omp_num_threads omp = 1"
  then have "int (omp_num_threads omp) < 1 + 1"
    by (rule team_of_one)
  then show "count_bits_optimized omp m buffer bufsize =
      count_bits_kernel (\<lambda>chunk. Some (sidewaysaddition_kernel chunk)) omp m buffer bufsize"
    unfolding count_bits_optimized_def by (rule count_bits_kernel2_small_team)
qed

theorem hybrid_kernel_selection_witness:
  "count_bits_kernel2 (\<lambda>c. Some 1) (\<lambda>c. Some 0) 1 1 (omp_static 3)
     (mem_of_bytes 0 example_buffer) 0 19 = Some 13 \<and>
   count_bits_optimized (omp_static 3) (mem_of_bytes 0 example_buffer) 0 19 = Some 62 \<and>
   int (omp_num_threads (omp_static 1)) < 1 + 1 \<and>
   count_bits_kernel2 (\<lambda>c. None) (\<lambda>c. Some 1) 1 1 (omp_static 1)
     (mem_of_bytes 0 example_buffer) 0 19 =
   count_bits_kernel (\<lambda>c. Some 1) (omp_static 1) (mem_of_bytes 0 example_buffer) 0 19 \<and>
   omp_num_threads (omp_static 1) = 1 \<and>
   count_bits_optimized (omp_static 1) (mem_of_bytes 0 example_buffer) 0 19 =
   count_bits_kernel (\<lambda>chunk. Some (sidewaysaddition_kernel chunk)) (omp_static 1)
     (mem_of_bytes 0 example_buffer) 0 19"
proof -
  let ?m = "mem_of_bytes 0 example_buffer"
  have nz: "(1 :: int) + 1 \<noteq> 0"
    by simp
  have T1: "omp_num_threads (omp_static 1) = 1"
    by (simp add: omp_static_def)
  have small: "int (omp_num_threads (omp_static 1)) < 1 + 1"
    by (simp add: omp_static_def)
  have parts: "(\<Sum>th\<leftarrow>omp_schedule (omp_static 3) (unat (19 :: size_t) div 8). \<Sum>i\<leftarrow>snd th.
      (if int (fst th) < int (omp_num_threads (omp_static 3)) sdiv (1 + 1)
       then (\<lambda>c. 1) else (\<lambda>c. 0)) (chunk_at ?m (0 + i * 8))) = (1 :: long)"
    by code_simp
  have tail: "buffer_bits ?m (0 + 8 * (unat (19 :: size_t) div 8)) (unat (19 :: size_t) mod 8) = 12"
    by code_simp
  have bb: "buffer_bits ?m 0 (unat (19 :: size_t)) = 62"
    by code_simp
  note three = hybrid_kernel_selection [OF omp_static_3_ok example_readable nz,
      of "\<lambda>c. None" "\<lambda>c. Some 1" "\<lambda>c. 1" "\<lambda>c. 0" "\<lambda>c. 1"]
  note one = hybrid_kernel_selection [OF omp_static_1_ok example_readable nz,
      of "\<lambda>c. None" "\<lambda>c. Some 1" "\<lambda>c. 1" "\<lambda>c. 0" "\<lambda>c. 1"]
  from three have "count_bits_kernel2 (\<lambda>c. Some 1) (\<lambda>c. Some 0) 1 1 (omp_static 3) ?m 0 19 =
      Some ((\<Sum>th\<leftarrow>omp_schedule (omp_static 3) (unat (19 :: size_t) div 8). \<Sum>i\<leftarrow>snd th.
               (if int (fst th) < int (omp_num_threads (omp_static 3)) sdiv (1 + 1)
                then (\<lambda>c. 1) else (\<lambda>c. 0)) (chunk_at ?m (0 + i * 8))) +
            of_nat (buffer_bits ?m (0 + 8 * (unat (19 :: size_t) div 8)) (unat (19 :: size_t) mod 8)))"
    by (rule conjunct2 [THEN conjunct1])
  then have a: "count_bits_kernel2 (\<lambda>c. Some 1) (\<lambda>c. Some 0) 1 1 (omp_static 3) ?m 0 19 = Some 13"
    by (simp only: parts tail) simp
  from three have "count_bits_optimized (omp_static 3) ?m 0 19 =
      Some (of_nat (buffer_bits ?m 0 (unat (19 :: size_t))))"
    by (elim conjE)
  then have b: "count_bits_optimized (omp_static 3) ?m 0 19 = Some 62"
    by (simp only: bb) simp
  from one have "int (omp_num_threads (omp_static 1)) < 1 + 1 \<longrightarrow>
      count_bits_kernel2 (\<lambda>c. None) (\<lambda>c. Some 1) 1 1 (omp_static 1) ?m 0 19 =
      count_bits_kernel (\<lambda>c. Some 1) (omp_static 1) ?m 0 19"
    by (elim conjE)
  then have c: "count_bits_kernel2 (\<lambda>c. None) (\<lambda>c. Some 1) 1 1 (omp_static 1) ?m 0 19 =
      count_bits_kernel (\<lambda>c. Some 1) (omp_static 1) ?m 0 19"
    using small by (rule mp)
  from one have "omp_num_threads (omp_static 1) = 1 \<longrightarrow>
      count_bits_optimized (omp_static 1) ?m 0 19 =
      count_bits_kernel (\<lambda>chunk. Some (sidewaysaddition_kernel chunk)) (omp_static 1) ?m 0 19"
    by (elim conjE)
  then have d: "count_bits_optimized (omp_static 1) ?m 0 19 =
      count_bits_kernel (\<lambda>chunk. Some (sidewaysaddition_kernel chunk)) (omp_static 1) ?m 0 19"
    using T1 by (rule mp)
  from a b small c T1 d show ?thesis
    by (intro conjI)
qed

end
